theory Spec2Isabelle
  imports Main "HOL-Library.Char_ord" "HOL-Library.List_Lexorder" "HOL-Library.Product_Lexorder"
    "HOL-Library.Multiset"
begin

section \<open>Data model\<close>

text \<open>
  The two scripts of the repository (\<open>cmd_gen.0.2/make_cmd_gen_dataset.py\<close> and
  \<open>playthroughs/collect_playthroughs.py\<close>) replay a game's walkthrough in a TextWorld
  environment and, after every command, turn the set of facts seen so far into records.
  This theory models \<open>make_cmd_gen_dataset.py\<close>, whose records carry the graph commands,
  and the exploration loop of \<open>collect_playthroughs.py\<close>. The walkthrough loops of the two
  scripts have the same structure: the same normalisation of the walkthrough, the same
  \<open>restart\<close> step, the same update of the seen set and the same \<open>break\<close> at the end of the
  episode.

  Strings are byte strings (\<open>char list\<close>) ordered lexicographically by character code,
  which is how Python orders \<open>str\<close> values. Python sets of facts are HOL sets over an
  ordered type \<open>'f\<close> of facts; Python's \<open>int\<close> is \<open>int\<close>.
\<close>

datatype error = IndexError

text \<open>The \<open>infos\<close> dictionary returned by the environment, with the keys the scripts read.\<close>

record ('g, 'p, 'a) infos =
  info_game :: 'g
  info_facts :: 'p
  info_last_action :: 'a
  admissible_commands :: "string list"
  extra_walkthrough :: "string list"

text \<open>One element of \<open>dataset\<close> in \<open>make_cmd_gen_dataset.py\<close> (lines 105-114 and 141-150).\<close>

record datum =
  game :: string
  step :: "int \<times> int"
  observation :: string
  previous_action :: string
  target_commands :: "string list"
  previous_graph_seen :: "string list"
  graph_seen :: "string list"

text \<open>
  Everything the scripts call but do not define: the TextWorld environment
  (\<open>textworld.start\<close>, \<open>env.reset\<close>, \<open>env.step\<close>; \<open>env.copy()\<close> is the identity on
  environment values), \<open>generic.process_facts\<close>, the per-fact encoder used by
  \<open>generic.serialize_facts\<close>, the inverse of a fact where the rule base of the game
  declares one (\<open>inverse\<close>, used by \<open>generic.gen_graph_commands\<close>), \<open>generic.preproc\<close>
  (with its tokenizer), and numpy's \<open>RandomState(seed)\<close> with its \<open>choice\<close>. They are
  parameters of the model, taken as total functions.
\<close>

record ('e, 'g, 'p, 'a, 'f, 'r) externals =
  start :: "string \<Rightarrow> 'e"
  reset :: "'e \<Rightarrow> (string \<times> ('g, 'p, 'a) infos) \<times> 'e"
  env_step :: "'e \<Rightarrow> string \<Rightarrow> (string \<times> bool \<times> ('g, 'p, 'a) infos) \<times> 'e"
  process_facts :: "'f set \<Rightarrow> 'g \<Rightarrow> 'p \<Rightarrow> 'a \<Rightarrow> string \<Rightarrow> 'f set"
  serialize :: "'f \<Rightarrow> string"
  inverse :: "'f \<Rightarrow> 'f option"
  preproc :: "string \<Rightarrow> string"
  RandomState :: "int \<Rightarrow> 'r"
  choice :: "'r \<Rightarrow> string list \<Rightarrow> string \<times> 'r"

text \<open>
  The local variables of \<open>collect_data_from_game\<close> that the two loops read and write.
  \<open>env_'\<close> and \<open>facts_seen_'\<close> stand for Python's \<open>env_\<close> and \<open>facts_seen_\<close>, and \<open>done'\<close>
  for \<open>done\<close>. Python binds \<open>env_\<close> and \<open>facts_seen_\<close> at the first fork only; until
  then the model holds the initial environment and the empty set in them, and nothing
  reads them.
\<close>

record ('e, 'g, 'p, 'a, 'f, 'r) vars =
  env :: 'e
  env_' :: 'e
  obs :: string
  infos :: "('g, 'p, 'a) infos"
  done' :: bool
  facts_seen :: "'f set"
  facts_seen_' :: "'f set"
  dataset :: "datum list"
  rng :: 'r

section \<open>String helpers of the Python standard library\<close>

text \<open>\<open>str.lower\<close> on ASCII letters.\<close>

definition lower_char :: "char \<Rightarrow> char" where
  "lower_char c =
     (if CHR ''A'' \<le> c \<and> c \<le> CHR ''Z'' then char_of (of_char c + (32::nat)) else c)"

definition lower :: "string \<Rightarrow> string" where
  "lower s = map lower_char s"

text \<open>\<open>os.path.basename\<close>: what follows the last slash.\<close>

definition basename :: "string \<Rightarrow> string" where
  "basename p = rev (takeWhile (\<lambda>c. c \<noteq> CHR ''/'') (rev p))"

text \<open>The ASCII characters that \<open>str.split()\<close> treats as whitespace.\<close>

definition isspace :: "char \<Rightarrow> bool" where
  "isspace c = (of_char c \<in> {9, 10, 11, 12, 13, 28, 29, 30, 31, (32::nat)})"

text \<open>\<open>c.split()[0]\<close>: the first whitespace-separated word, \<open>IndexError\<close> when there is none.\<close>

definition split0 :: "string \<Rightarrow> error + string" where
  "split0 c =
     (let r = dropWhile isspace c
      in if r = [] then Inl IndexError else Inr (takeWhile (\<lambda>x. \<not> isspace x) r))"

section \<open>Serialising facts and generating graph commands\<close>

text \<open>
  Modelled from the spec: \<open>generic.serialize_facts\<close> is not among the sources. The spec
  (4.4) encodes every fact on its own with \<open>serialize\<close>; the list is produced here in the
  order of the facts, and every caller sorts it.
\<close>

definition serialize_facts ::
  "('e, 'g, 'p, 'a, 'f::linorder, 'r) externals \<Rightarrow> 'f set \<Rightarrow> string list" where
  "serialize_facts X facts = map (serialize X) (sorted_list_of_set facts)"

text \<open>
  Modelled from the spec: the inverse-predicate pairs are declared by the rule base (4.4),
  which is not among the sources. Two facts are paired when one is the declared inverse
  of the other.
\<close>

definition paired :: "('e, 'g, 'p, 'a, 'f, 'r) externals \<Rightarrow> 'f \<Rightarrow> 'f \<Rightarrow> bool" where
  "paired X f g = (inverse X f = Some g \<or> inverse X g = Some f)"

text \<open>
  Modelled from the spec: the symmetric-pair collapsing of 4.5. Before emission, one
  member of an inverse-predicate pair is removed when its partner is among the facts of
  the same call, so that the partner's command implies it. The policy keeps the member
  with the lexicographically smaller canonical encoding and drops the paired inverse.
\<close>

definition collapse ::
  "('e, 'g, 'p, 'a, 'f, 'r) externals \<Rightarrow> 'f set \<Rightarrow> 'f set" where
  "collapse X facts =
     {f \<in> facts. \<not> (\<exists>g\<in>facts. paired X f g \<and> serialize X g < serialize X f)}"

text \<open>The facts of a call whose command the collapsing removes.\<close>

definition dropped ::
  "('e, 'g, 'p, 'a, 'f, 'r) externals \<Rightarrow> 'f set \<Rightarrow> 'f set" where
  "dropped X facts = facts - collapse X facts"

text \<open>
  Modelled from the spec: \<open>generic.gen_graph_commands\<close> is not among the sources. The spec
  (4.5, 6) emits one command per fact that the collapsing keeps, the string
  \<open>"<add|delete> <canonical-fact>"\<close>.
\<close>

definition gen_graph_commands ::
  "('e, 'g, 'p, 'a, 'f::linorder, 'r) externals \<Rightarrow> 'f set \<Rightarrow> string \<Rightarrow> string list" where
  "gen_graph_commands X facts cmd =
     map (\<lambda>t. cmd @ '' '' @ t) (serialize_facts X (collapse X facts))"

text \<open>
  The two set differences of lines 110-111 (and 146-147): the facts that entered the seen
  set and those that left it.
\<close>

definition added :: "'f set \<Rightarrow> 'f set \<Rightarrow> 'f set" where
  "added last_facts seen = seen - last_facts"

definition removed :: "'f set \<Rightarrow> 'f set \<Rightarrow> 'f set" where
  "removed last_facts seen = last_facts - seen"

text \<open>The \<open>"target_commands"\<close> entry of a record.\<close>

definition synth_commands ::
  "('e, 'g, 'p, 'a, 'f::linorder, 'r) externals \<Rightarrow> 'f set \<Rightarrow> 'f set \<Rightarrow> string list" where
  "synth_commands X last_facts seen =
     sort (gen_graph_commands X (added last_facts seen) ''add''
           @ gen_graph_commands X (removed last_facts seen) ''delete'')"

text \<open>The dictionary appended to \<open>dataset\<close> at step \<open>(i, j)\<close>.\<close>

definition mk_datum ::
  "('e, 'g, 'p, 'a, 'f::linorder, 'r) externals \<Rightarrow> string \<Rightarrow> int \<times> int \<Rightarrow> string \<Rightarrow> string
     \<Rightarrow> 'f set \<Rightarrow> 'f set \<Rightarrow> datum" where
  "mk_datum X gamefile st ob cmd last_facts seen =
     \<lparr> game = basename gamefile,
       step = st,
       observation = preproc X ob,
       previous_action = lower cmd,
       target_commands = synth_commands X last_facts seen,
       previous_graph_seen = sort (serialize_facts X last_facts),
       graph_seen = sort (serialize_facts X seen) \<rparr>"

section \<open>The exploration filter\<close>

definition commands_to_ignore :: "string list" where
  "commands_to_ignore = [''look'', ''examine'', ''inventory'']"

text \<open>
  The condition of the list comprehension of lines 125-127 for one admissible command
  \<open>c\<close>. Python evaluates \<open>c.split()[0]\<close> unless \<open>c\<close> is \<open>"examine cookbook"\<close>, so a blank
  command raises \<open>IndexError\<close>.
\<close>

definition eligible :: "string list \<Rightarrow> nat \<Rightarrow> string \<Rightarrow> error + bool" where
  "eligible walkthrough i c =
     (if c = ''examine cookbook''
      then Inr (i + 1 \<noteq> length walkthrough \<and> c \<noteq> walkthrough ! (i + 1))
      else (case split0 c of
              Inl e \<Rightarrow> Inl e
            | Inr w \<Rightarrow> Inr (w \<notin> set commands_to_ignore
                            \<and> i + 1 \<noteq> length walkthrough \<and> c \<noteq> walkthrough ! (i + 1))))"

fun eligible_commands :: "string list \<Rightarrow> nat \<Rightarrow> string list \<Rightarrow> error + string list" where
  "eligible_commands walkthrough i [] = Inr []"
| "eligible_commands walkthrough i (c # cs) =
     (case eligible walkthrough i c of
        Inl e \<Rightarrow> Inl e
      | Inr b \<Rightarrow> (case eligible_commands walkthrough i cs of
                    Inl e \<Rightarrow> Inl e
                  | Inr rest \<Rightarrow> Inr (if b then c # rest else rest)))"

section \<open>Loops with \<open>break\<close>\<close>

text \<open>
  A Python \<open>for\<close> loop whose body may \<open>break\<close> or raise: the body returns the updated
  variables together with how it left (\<open>Continue\<close> at its end, \<open>Break\<close> at a \<open>break\<close>), or
  the error it raised.
\<close>

datatype 's flow = Continue 's | Break 's

fun for_loop :: "('x \<Rightarrow> 's \<Rightarrow> error + 's flow) \<Rightarrow> 'x list \<Rightarrow> 's \<Rightarrow> error + 's" where
  "for_loop body [] s = Inr s"
| "for_loop body (x # xs) s =
     (case body x s of
        Inl e \<Rightarrow> Inl e
      | Inr (Break s') \<Rightarrow> Inr s'
      | Inr (Continue s') \<Rightarrow> for_loop body xs s')"

section \<open>\<open>collect_data_from_game\<close> of \<open>make_cmd_gen_dataset.py\<close>\<close>

text \<open>
  The body of the inner loop (lines 125-150) for one value of \<open>j\<close>: one random command on
  the forked environment \<open>env_\<close>.
\<close>

definition explore_body ::
  "('e, 'g, 'p, 'a, 'f::linorder, 'r) externals \<Rightarrow> string \<Rightarrow> string list \<Rightarrow> nat \<Rightarrow> int
     \<Rightarrow> ('e, 'g, 'p, 'a, 'f, 'r) vars \<Rightarrow> error + ('e, 'g, 'p, 'a, 'f, 'r) vars flow" where
  "explore_body X gamefile walkthrough i j s =
     (case eligible_commands walkthrough i (admissible_commands (infos s)) of
        Inl e \<Rightarrow> Inl e
      | Inr commands \<Rightarrow>
          if length commands = 0 then Inr (Break s)
          else
            (case choice X (rng s) commands of (cmd_', r') \<Rightarrow>
             (case env_step X (env_' s) cmd_' of ((ob, dn, info), e') \<Rightarrow>
               let s1 = s\<lparr> rng := r', env_' := e', obs := ob, done' := dn, infos := info \<rparr>
               in if dn then Inr (Break s1)
                  else
                    let last_facts_' = facts_seen_' s1;
                        seen = process_facts X last_facts_' (info_game info) (info_facts info)
                                 (info_last_action info) cmd_'
                    in Inr (Continue
                         (s1\<lparr> facts_seen_' := seen,
                              dataset := dataset s1
                                @ [mk_datum X gamefile (int i, j) ob cmd_' last_facts_' seen] \<rparr>)))))"

text \<open>The inner loop (line 124): \<open>for j in range(1, branching_depth + 1)\<close>.\<close>

definition explore ::
  "('e, 'g, 'p, 'a, 'f::linorder, 'r) externals \<Rightarrow> string \<Rightarrow> int \<Rightarrow> string list \<Rightarrow> nat
     \<Rightarrow> ('e, 'g, 'p, 'a, 'f, 'r) vars \<Rightarrow> error + ('e, 'g, 'p, 'a, 'f, 'r) vars" where
  "explore X gamefile branching_depth walkthrough i s =
     for_loop (explore_body X gamefile walkthrough i) [1..branching_depth] s"

text \<open>
  Lines 100-101: the walkthrough command is sent to the environment, except at index 0
  (the \<open>restart\<close> pseudo-command), where \<open>obs\<close>, \<open>infos\<close> and \<open>done\<close> keep the values they
  have.
\<close>

definition after_command ::
  "('e, 'g, 'p, 'a, 'f, 'r) externals \<Rightarrow> nat \<Rightarrow> string
     \<Rightarrow> ('e, 'g, 'p, 'a, 'f, 'r) vars \<Rightarrow> ('e, 'g, 'p, 'a, 'f, 'r) vars" where
  "after_command X i cmd s =
     (if i > 0
      then (case env_step X (env s) cmd of ((ob, dn, info), e') \<Rightarrow>
              s\<lparr> env := e', obs := ob, done' := dn, infos := info \<rparr>)
      else s)"

text \<open>Lines 103-114: the new seen set and the record of the walkthrough step.\<close>

definition recorded ::
  "('e, 'g, 'p, 'a, 'f::linorder, 'r) externals \<Rightarrow> string \<Rightarrow> nat \<Rightarrow> string \<Rightarrow> 'f set
     \<Rightarrow> ('e, 'g, 'p, 'a, 'f, 'r) vars \<Rightarrow> ('e, 'g, 'p, 'a, 'f, 'r) vars" where
  "recorded X gamefile i cmd last_facts s1 =
     (let seen = process_facts X last_facts (info_game (infos s1)) (info_facts (infos s1))
                   (info_last_action (infos s1)) cmd
      in s1\<lparr> facts_seen := seen,
              dataset := dataset s1
                @ [mk_datum X gamefile (int i, 0) (obs s1) cmd last_facts seen] \<rparr>)"

text \<open>Lines 120-121: \<open>env_ = env.copy()\<close> and \<open>facts_seen_ = facts_seen\<close>.\<close>

definition fork :: "('e, 'g, 'p, 'a, 'f, 'r) vars \<Rightarrow> ('e, 'g, 'p, 'a, 'f, 'r) vars" where
  "fork s = s\<lparr> env_' := env s, facts_seen_' := facts_seen s \<rparr>"

text \<open>
  The body of the outer loop (lines 99-150) for one pair \<open>(i, cmd)\<close> of
  \<open>enumerate(walkthrough)\<close>: the walkthrough command, its record, then the fork.
\<close>

definition walk_body ::
  "('e, 'g, 'p, 'a, 'f::linorder, 'r) externals \<Rightarrow> string \<Rightarrow> int \<Rightarrow> string list
     \<Rightarrow> nat \<times> string
     \<Rightarrow> ('e, 'g, 'p, 'a, 'f, 'r) vars \<Rightarrow> error + ('e, 'g, 'p, 'a, 'f, 'r) vars flow" where
  "walk_body X gamefile branching_depth walkthrough ic s =
     (case ic of (i, cmd) \<Rightarrow>
      let last_facts = facts_seen s;
          s2 = recorded X gamefile i cmd last_facts (after_command X i cmd s)
      in if done' s2 then Inr (Break s2)
         else (case explore X gamefile branching_depth walkthrough i (fork s2) of
                 Inl e \<Rightarrow> Inl e
               | Inr s3 \<Rightarrow> Inr (Continue s3)))"

text \<open>The outer loop (line 98) over the remaining pairs of \<open>enumerate(walkthrough)\<close>.\<close>

definition walk ::
  "('e, 'g, 'p, 'a, 'f::linorder, 'r) externals \<Rightarrow> string \<Rightarrow> int \<Rightarrow> string list
     \<Rightarrow> (nat \<times> string) list
     \<Rightarrow> ('e, 'g, 'p, 'a, 'f, 'r) vars \<Rightarrow> error + ('e, 'g, 'p, 'a, 'f, 'r) vars" where
  "walk X gamefile branching_depth walkthrough rest s =
     for_loop (walk_body X gamefile branching_depth walkthrough) rest s"

text \<open>Lines 86-92: the walkthrough with \<open>inventory\<close> and \<open>restart\<close> in front.\<close>

definition normalize_walkthrough :: "string list \<Rightarrow> error + string list" where
  "normalize_walkthrough walkthrough =
     (case walkthrough of
        [] \<Rightarrow> Inl IndexError
      | w0 # _ \<Rightarrow>
          Inr (''restart'' #
                 (if w0 \<noteq> ''inventory'' then ''inventory'' # walkthrough else walkthrough)))"

definition collect_data_from_game ::
  "('e, 'g, 'p, 'a, 'f::linorder, 'r) externals \<Rightarrow> string \<Rightarrow> int \<Rightarrow> int
     \<Rightarrow> error + (string \<times> datum list)" where
  "collect_data_from_game X gamefile seed branching_depth =
     (case reset X (start X gamefile) of ((ob, info), e) \<Rightarrow>
      (case normalize_walkthrough (extra_walkthrough info) of
        Inl err \<Rightarrow> Inl err
      | Inr walkthrough \<Rightarrow>
          (case walk X gamefile branching_depth walkthrough (enumerate 0 walkthrough)
                  \<lparr> env = e, env_' = e, obs = ob, infos = info, done' = False,
                    facts_seen = {}, facts_seen_' = {}, dataset = [],
                    rng = RandomState X seed \<rparr> of
             Inl err \<Rightarrow> Inl err
           | Inr s \<Rightarrow> Inr (gamefile, dataset s))))"

section \<open>\<open>collect_data\<close> of \<open>make_cmd_gen_dataset.py\<close>\<close>

text \<open>The command-line arguments that \<open>collect_data\<close> reads.\<close>

record args =
  args_nb_processes :: int
  args_seed :: int
  args_branching_depth :: int

text \<open>
  The output file: the data of the games written so far, one chunk per call of
  \<open>_assemble_results\<close> (line 167), and whether the closing bracket has been written and the
  file closed (lines 190-192). The JSON text of a chunk is not modelled.
\<close>

record outfile =
  written :: "datum list list"
  closed :: bool

definition assemble_results :: "string \<times> datum list \<Rightarrow> datum list list \<Rightarrow> datum list list" where
  "assemble_results res out = (case res of (gamefile, data) \<Rightarrow> out @ [data])"

text \<open>
  The sequential loop (lines 184-187). No statement of \<open>collect_data\<close> catches an exception,
  so the first game that raises ends the loop: the result is the error together with what
  had been written before it.
\<close>

fun collect_games ::
  "('e, 'g, 'p, 'a, 'f::linorder, 'r) externals \<Rightarrow> args \<Rightarrow> (nat \<times> string) list
     \<Rightarrow> datum list list \<Rightarrow> error option \<times> datum list list" where
  "collect_games X a [] out = (None, out)"
| "collect_games X a ((i, gamefile) # rest) out =
     (let seed = args_seed a + int i
      in case collect_data_from_game X gamefile seed (args_branching_depth a) of
           Inl e \<Rightarrow> (Some e, out)
         | Inr data \<Rightarrow> collect_games X a rest (assemble_results data out))"

text \<open>
  \<open>collect_data\<close> when \<open>args.nb_processes\<close> is at most 1. The other branch (lines 169-181)
  hands the same calls to a \<open>multiprocessing.Pool\<close>; it is not modelled, and the result is
  \<open>None\<close> there.
\<close>

definition collect_data ::
  "('e, 'g, 'p, 'a, 'f::linorder, 'r) externals \<Rightarrow> string list \<Rightarrow> args
     \<Rightarrow> (error option \<times> outfile) option" where
  "collect_data X gamefiles a =
     (if args_nb_processes a > 1 then None
      else (case collect_games X a (enumerate 0 gamefiles) [] of
              (None, out) \<Rightarrow> Some (None, \<lparr> written = out, closed = True \<rparr>)
            | (Some e, out) \<Rightarrow> Some (Some e, \<lparr> written = out, closed = False \<rparr>)))"

section \<open>The exploration of \<open>collect_playthroughs.py\<close>\<close>

text \<open>
  \<open>collect_playthroughs.py\<close> explores differently: after a walkthrough step it tries every
  eligible command once, each on its own copy of the environment and each from the
  walkthrough's seen set (lines 62-82). Its records have three graphs and no commands.
  \<open>generic.process_local_obs_facts\<close> and \<open>generic.process_fully_obs_facts\<close> are the
  parameters \<open>loc\<close> and \<open>full\<close>.
\<close>

record pt_datum =
  pt_game :: string
  pt_step :: "int \<times> int"
  pt_action :: string
  graph_local :: "string list"
  pt_graph_seen :: "string list"
  graph_full :: "string list"

text \<open>The variables that the loop over the eligible commands assigns.\<close>

record ('g, 'p, 'a) pt_vars =
  pt_infos :: "('g, 'p, 'a) infos"
  pt_done :: bool
  pt_dataset :: "pt_datum list"

text \<open>
  Lines 68-82 for the \<open>j\<close>-th eligible command \<open>cmd_\<close>: the \<open>infos\<close> and \<open>done\<close> that the
  copy of the environment \<open>env\<close> returns for it, and the record made from them and from the
  walkthrough's \<open>facts_seen\<close>.
\<close>

definition pt_sibling ::
  "('e, 'g, 'p, 'a, 'f::linorder, 'r) externals \<Rightarrow> ('g \<Rightarrow> 'p \<Rightarrow> 'a \<Rightarrow> string \<Rightarrow> 'f set)
     \<Rightarrow> ('g \<Rightarrow> 'p \<Rightarrow> 'f set) \<Rightarrow> string \<Rightarrow> nat \<Rightarrow> 'e \<Rightarrow> 'f set \<Rightarrow> nat \<times> string
     \<Rightarrow> ('g, 'p, 'a) infos \<times> bool \<times> pt_datum" where
  "pt_sibling X loc full gamefile i env0 seen0 jc =
     (case jc of (j, cmd_') \<Rightarrow>
      (case env_step X env0 cmd_' of ((ob, dn, info), e') \<Rightarrow>
         let facts_local_' = loc (info_game info) (info_facts info) (info_last_action info) cmd_';
             facts_seen_' = process_facts X seen0 (info_game info) (info_facts info)
                              (info_last_action info) cmd_';
             facts_full_' = full (info_game info) (info_facts info)
         in (info, dn,
             \<lparr> pt_game = basename gamefile,
               pt_step = (int i, int j),
               pt_action = lower cmd_',
               graph_local = sort (serialize_facts X facts_local_'),
               pt_graph_seen = sort (serialize_facts X facts_seen_'),
               graph_full = sort (serialize_facts X facts_full_') \<rparr>)))"

definition pt_try ::
  "('e, 'g, 'p, 'a, 'f::linorder, 'r) externals \<Rightarrow> ('g \<Rightarrow> 'p \<Rightarrow> 'a \<Rightarrow> string \<Rightarrow> 'f set)
     \<Rightarrow> ('g \<Rightarrow> 'p \<Rightarrow> 'f set) \<Rightarrow> string \<Rightarrow> nat \<Rightarrow> 'e \<Rightarrow> 'f set \<Rightarrow> nat \<times> string
     \<Rightarrow> ('g, 'p, 'a) pt_vars \<Rightarrow> ('g, 'p, 'a) pt_vars" where
  "pt_try X loc full gamefile i env0 seen0 jc s =
     (case pt_sibling X loc full gamefile i env0 seen0 jc of (info, dn, r) \<Rightarrow>
        s\<lparr> pt_infos := info, pt_done := dn, pt_dataset := pt_dataset s @ [r] \<rparr>)"

text \<open>The loop of line 67: \<open>for j, cmd_ in enumerate(commands, start=1)\<close>.\<close>

definition pt_explore ::
  "('e, 'g, 'p, 'a, 'f::linorder, 'r) externals \<Rightarrow> ('g \<Rightarrow> 'p \<Rightarrow> 'a \<Rightarrow> string \<Rightarrow> 'f set)
     \<Rightarrow> ('g \<Rightarrow> 'p \<Rightarrow> 'f set) \<Rightarrow> string \<Rightarrow> nat \<Rightarrow> 'e \<Rightarrow> 'f set \<Rightarrow> string list
     \<Rightarrow> ('g, 'p, 'a) pt_vars \<Rightarrow> ('g, 'p, 'a) pt_vars" where
  "pt_explore X loc full gamefile i env0 seen0 commands s =
     fold (pt_try X loc full gamefile i env0 seen0) (enumerate 1 commands) s"

section \<open>Notions of the specification\<close>

text \<open>
  Applying a graph command to a serialized view (a sorted list of canonical fact strings):
  \<open>add f\<close> inserts the string \<open>f\<close> at its place, \<open>delete f\<close> removes one occurrence of it.
\<close>

definition apply_command :: "string \<Rightarrow> string list \<Rightarrow> string list" where
  "apply_command c g =
     (if take 4 c = ''add '' then insort (drop 4 c) g
      else if take 7 c = ''delete '' then remove1 (drop 7 c) g
      else g)"

definition apply_commands :: "string list \<Rightarrow> string list \<Rightarrow> string list" where
  "apply_commands cs g = fold apply_command cs g"

text \<open>The pair (operation, canonical fact string) that a command string stands for.\<close>

definition command_key :: "string \<Rightarrow> string \<times> string" where
  "command_key c =
     (takeWhile (\<lambda>x. x \<noteq> CHR '' '') c, drop 1 (dropWhile (\<lambda>x. x \<noteq> CHR '' '') c))"

text \<open>
  The environment of the walkthrough after some of its commands, and whether the
  environment reports the end of the episode for a command.
\<close>

definition env_after :: "('e, 'g, 'p, 'a, 'f, 'r) externals \<Rightarrow> 'e \<Rightarrow> string list \<Rightarrow> 'e" where
  "env_after X e cmds = fold (\<lambda>c e. snd (env_step X e c)) cmds e"

definition reports_done :: "('e, 'g, 'p, 'a, 'f, 'r) externals \<Rightarrow> 'e \<Rightarrow> string \<Rightarrow> bool" where
  "reports_done X e cmd = fst (snd (fst (env_step X e cmd)))"

text \<open>
  Two runs of the walkthrough loop agree on the walkthrough: same environment, same seen
  set, and the same records of walkthrough steps (those with \<open>j = 0\<close>).
\<close>

definition walk_rel ::
  "('e, 'g, 'p, 'a, 'f, 'r) vars \<Rightarrow> ('e, 'g, 'p, 'a, 'f, 'r) vars \<Rightarrow> bool" where
  "walk_rel s t = (env s = env t \<and> facts_seen s = facts_seen t
     \<and> filter (\<lambda>r. snd (step r) = 0) (dataset s) = dataset t)"

text \<open>What \<open>collect_data_from_game\<close> returns for each game of a batch, with its seed.\<close>

definition game_results ::
  "('e, 'g, 'p, 'a, 'f::linorder, 'r) externals \<Rightarrow> args \<Rightarrow> nat \<Rightarrow> string list
     \<Rightarrow> (error + string \<times> datum list) list" where
  "game_results X a n gamefiles =
     map (\<lambda>(i, gamefile).
            collect_data_from_game X gamefile (args_seed a + int i) (args_branching_depth a))
       (enumerate n gamefiles)"

section \<open>An example game\<close>

text \<open>
  A small environment to run the model on. Facts are numbers: 1 is the player in the
  kitchen, 2 the player in the hallway, 3 an apple. The game \<open>games/empty.z8\<close> has an
  empty walkthrough; every other game has the walkthrough \<open>go north\<close>, \<open>eat meal\<close>,
  \<open>go south\<close>, and \<open>eat meal\<close> ends the episode. As in the example of section 8 of the
  specification, the seen set after a step is the set of the facts of that step (the
  player is in the kitchen, then in the hallway), and no fact has an inverse.
\<close>

definition example_infos ::
  "string list \<Rightarrow> nat list \<Rightarrow> (unit, nat list, unit) infos" where
  "example_infos w fs =
     \<lparr> info_game = (), info_facts = fs, info_last_action = (),
       admissible_commands = [''look'', ''go north'', ''take apple'', ''eat meal''],
       extra_walkthrough = w \<rparr>"

definition example_step ::
  "string list \<Rightarrow> string
     \<Rightarrow> (string \<times> bool \<times> (unit, nat list, unit) infos) \<times> string list" where
  "example_step e cmd =
     ((''You did: '' @ cmd,
       cmd = ''eat meal'',
       example_infos []
         (if cmd = ''go north'' then [2] else if cmd = ''inventory'' then [1] else [1, 3])),
      e @ [cmd])"

definition example_serialize :: "nat \<Rightarrow> string" where
  "example_serialize n =
     (if n = 1 then ''at(player, kitchen)''
      else if n = 2 then ''at(player, hallway)'' else ''in(apple, kitchen)'')"

definition example :: "(string list, unit, nat list, unit, nat, nat) externals" where
  "example =
     \<lparr> start = (\<lambda>gamefile. [gamefile]),
       reset = (\<lambda>e. ((''Welcome'',
                       example_infos
                         (if e = [''games/empty.z8''] then []
                          else [''go north'', ''eat meal'', ''go south''])
                         [1]), e)),
       env_step = example_step,
       process_facts = (\<lambda>prev gm fs la cmd. set fs),
       serialize = example_serialize,
       inverse = (\<lambda>f. None),
       preproc = (\<lambda>ob. ob),
       RandomState = (\<lambda>seed. nat \<bar>seed\<bar>),
       choice = (\<lambda>r cs. (cs ! (r mod length cs), r + 1)) \<rparr>"


text \<open>The records of \<open>games/a.z8\<close> without exploration, and with one random command per step.\<close>

definition example_records :: "datum list" where
  "example_records =
     [\<lparr> game = ''a.z8'', step = (0, 0), observation = ''Welcome'',
         previous_action = ''restart'',
         target_commands = [''add at(player, kitchen)''],
         previous_graph_seen = [], graph_seen = [''at(player, kitchen)''] \<rparr>,
      \<lparr> game = ''a.z8'', step = (1, 0), observation = ''You did: inventory'',
         previous_action = ''inventory'', target_commands = [],
         previous_graph_seen = [''at(player, kitchen)''],
         graph_seen = [''at(player, kitchen)''] \<rparr>,
      \<lparr> game = ''a.z8'', step = (2, 0), observation = ''You did: go north'',
         previous_action = ''go north'',
         target_commands = [''add at(player, hallway)'', ''delete at(player, kitchen)''],
         previous_graph_seen = [''at(player, kitchen)''],
         graph_seen = [''at(player, hallway)''] \<rparr>,
      \<lparr> game = ''a.z8'', step = (3, 0), observation = ''You did: eat meal'',
         previous_action = ''eat meal'',
         target_commands =
           [''add at(player, kitchen)'', ''add in(apple, kitchen)'',
            ''delete at(player, hallway)''],
         previous_graph_seen = [''at(player, hallway)''],
         graph_seen = [''at(player, kitchen)'', ''in(apple, kitchen)''] \<rparr>]"


definition example_records_explored :: "datum list" where
  "example_records_explored =
     [\<lparr> game = ''a.z8'', step = (0, 0), observation = ''Welcome'',
         previous_action = ''restart'',
         target_commands = [''add at(player, kitchen)''],
         previous_graph_seen = [], graph_seen = [''at(player, kitchen)''] \<rparr>,
      \<lparr> game = ''a.z8'', step = (0, 1), observation = ''You did: go north'',
         previous_action = ''go north'',
         target_commands = [''add at(player, hallway)'', ''delete at(player, kitchen)''],
         previous_graph_seen = [''at(player, kitchen)''],
         graph_seen = [''at(player, hallway)''] \<rparr>,
      \<lparr> game = ''a.z8'', step = (1, 0), observation = ''You did: inventory'',
         previous_action = ''inventory'', target_commands = [],
         previous_graph_seen = [''at(player, kitchen)''],
         graph_seen = [''at(player, kitchen)''] \<rparr>,
      \<lparr> game = ''a.z8'', step = (2, 0), observation = ''You did: go north'',
         previous_action = ''go north'',
         target_commands = [''add at(player, hallway)'', ''delete at(player, kitchen)''],
         previous_graph_seen = [''at(player, kitchen)''],
         graph_seen = [''at(player, hallway)''] \<rparr>,
      \<lparr> game = ''a.z8'', step = (2, 1), observation = ''You did: go north'',
         previous_action = ''go north'', target_commands = [],
         previous_graph_seen = [''at(player, hallway)''],
         graph_seen = [''at(player, hallway)''] \<rparr>,
      \<lparr> game = ''a.z8'', step = (3, 0), observation = ''You did: eat meal'',
         previous_action = ''eat meal'',
         target_commands =
           [''add at(player, kitchen)'', ''add in(apple, kitchen)'',
            ''delete at(player, hallway)''],
         previous_graph_seen = [''at(player, hallway)''],
         graph_seen = [''at(player, kitchen)'', ''in(apple, kitchen)''] \<rparr>]"

text \<open>
  The same game with a pair of inverse facts: 4 is the hallway north of the kitchen, 5 the
  kitchen south of the hallway, each the inverse of the other, and both hold after
  \<open>go north\<close>.
\<close>

definition paired_step ::
  "string list \<Rightarrow> string
     \<Rightarrow> (string \<times> bool \<times> (unit, nat list, unit) infos) \<times> string list" where
  "paired_step e cmd =
     (if cmd = ''go north''
      then ((''You did: '' @ cmd, False, example_infos [] [2, 4, 5]), e @ [cmd])
      else example_step e cmd)"

definition paired_serialize :: "nat \<Rightarrow> string" where
  "paired_serialize n =
     (if n = 4 then ''north_of(hallway, kitchen)''
      else if n = 5 then ''south_of(kitchen, hallway)'' else example_serialize n)"

definition example_paired :: "(string list, unit, nat list, unit, nat, nat) externals" where
  "example_paired =
     example\<lparr> env_step := paired_step, serialize := paired_serialize,
              inverse := (\<lambda>n. if n = 4 then Some 5 else if n = 5 then Some 4 else None) \<rparr>"

text \<open>The records of \<open>games/a.z8\<close> in that game, without exploration.\<close>

definition paired_records :: "datum list" where
  "paired_records =
     [\<lparr> game = ''a.z8'', step = (0, 0), observation = ''Welcome'',
         previous_action = ''restart'',
         target_commands = [''add at(player, kitchen)''],
         previous_graph_seen = [], graph_seen = [''at(player, kitchen)''] \<rparr>,
      \<lparr> game = ''a.z8'', step = (1, 0), observation = ''You did: inventory'',
         previous_action = ''inventory'', target_commands = [],
         previous_graph_seen = [''at(player, kitchen)''],
         graph_seen = [''at(player, kitchen)''] \<rparr>,
      \<lparr> game = ''a.z8'', step = (2, 0), observation = ''You did: go north'',
         previous_action = ''go north'',
         target_commands =
           [''add at(player, hallway)'', ''add north_of(hallway, kitchen)'',
            ''delete at(player, kitchen)''],
         previous_graph_seen = [''at(player, kitchen)''],
         graph_seen =
           [''at(player, hallway)'', ''north_of(hallway, kitchen)'',
            ''south_of(kitchen, hallway)''] \<rparr>,
      \<lparr> game = ''a.z8'', step = (3, 0), observation = ''You did: eat meal'',
         previous_action = ''eat meal'',
         target_commands =
           [''add at(player, kitchen)'', ''add in(apple, kitchen)'',
            ''delete at(player, hallway)'', ''delete north_of(hallway, kitchen)''],
         previous_graph_seen =
           [''at(player, hallway)'', ''north_of(hallway, kitchen)'',
            ''south_of(kitchen, hallway)''],
         graph_seen = [''at(player, kitchen)'', ''in(apple, kitchen)''] \<rparr>]"

text \<open>The walkthrough of \<open>games/a.z8\<close> as it is processed.\<close>

definition example_walkthrough :: "string list" where
  "example_walkthrough = [''restart'', ''inventory'', ''go north'', ''eat meal'', ''go south'']"

definition example_args :: args where
  "example_args = \<lparr> args_nb_processes = 1, args_seed = - 1, args_branching_depth = 1 \<rparr>"

text \<open>
  The variables of the walkthrough loop of \<open>games/a.z8\<close> after the command \<open>go north\<close>.
\<close>

definition example_state :: "(string list, unit, nat list, unit, nat, nat) vars" where
  "example_state =
     \<lparr> env = [''games/a.z8'', ''inventory'', ''go north''],
       env_' = [''games/a.z8'', ''inventory'', ''go north''],
       obs = ''You did: go north'',
       infos = example_infos [] [2],
       done' = False,
       facts_seen = {2}, facts_seen_' = {2},
       dataset = [],
       rng = 1 \<rparr>"

section \<open>Ordering of command strings\<close>

lemma prefix_le_iff: "(p @ s \<le> p @ t) = (s \<le> (t::string))"
  by (induction p) auto

lemma add_less_delete: "''add '' @ s < ''delete '' @ (t::string)"
  by simp

lemma sorted_map_prefix: "sorted (map ((@) p) xs) = sorted (xs :: string list)"
  by (induction xs) (auto simp: prefix_le_iff)

lemma sort_commands:
  "sort (map ((@) ''add '') A @ map ((@) ''delete '') D)
     = map ((@) ''add '') (sort A) @ map ((@) ''delete '') (sort D)"
proof (rule properties_for_sort)
  show "mset (map ((@) ''add '') (sort A) @ map ((@) ''delete '') (sort D))
          = mset (map ((@) ''add '') A @ map ((@) ''delete '') D)"
    by simp
  have "\<And>x y. x \<in> set A \<Longrightarrow> y \<in> set D \<Longrightarrow> ''add '' @ x \<le> ''delete '' @ y"
    using add_less_delete by (simp add: less_imp_le)
  then show "sorted (map ((@) ''add '') (sort A) @ map ((@) ''delete '') (sort D))"
    by (auto simp: sorted_append sorted_map_prefix simp del: append.simps)
qed

lemma gen_add:
  "gen_graph_commands X F ''add'' = map ((@) ''add '') (serialize_facts X (collapse X F))"
  by (simp add: gen_graph_commands_def)

lemma gen_delete:
  "gen_graph_commands X F ''delete''
     = map ((@) ''delete '') (serialize_facts X (collapse X F))"
  by (simp add: gen_graph_commands_def)

lemma synth_commands_sorted_form:
  "synth_commands X p c =
     map ((@) ''add '') (sort (serialize_facts X (collapse X (added p c))))
     @ map ((@) ''delete '') (sort (serialize_facts X (collapse X (removed p c))))"
  unfolding synth_commands_def gen_add gen_delete by (rule sort_commands)

lemma collapse_subset: "collapse X F \<subseteq> F"
  by (auto simp: collapse_def)


lemma dropped_empty: "dropped X {} = {}"
  by (simp add: dropped_def)

lemma collapse_no_inverse: "\<forall>f. inverse X f = None \<Longrightarrow> collapse X F = F"
  by (auto simp: collapse_def paired_def)

lemma dropped_no_inverse: "\<forall>f. inverse X f = None \<Longrightarrow> dropped X F = {}"
  by (simp add: dropped_def collapse_no_inverse)

lemma collapse_dropped: "dropped X F = {} \<Longrightarrow> collapse X F = F"
  using collapse_subset [of X F] by (auto simp: dropped_def)

lemma serialize_facts_empty: "serialize_facts X {} = []"
  by (simp add: serialize_facts_def)

lemma set_serialize_facts: "set (serialize_facts X F) \<subseteq> range (serialize X)"
  by (auto simp: serialize_facts_def)

section \<open>Applying commands\<close>

lemma apply_adds: "fold apply_command (map ((@) ''add '') A) g = fold insort A g"
  by (induction A arbitrary: g) (simp_all add: apply_command_def)

lemma apply_deletes: "fold apply_command (map ((@) ''delete '') D) g = fold remove1 D g"
  by (induction D arbitrary: g) (simp_all add: apply_command_def)

lemma fold_insort_props:
  "sorted g \<Longrightarrow> sorted (fold insort A g) \<and> mset (fold insort A g) = mset g + mset A"
  by (induction A arbitrary: g) (simp_all add: sorted_insort)

lemma fold_remove1_props:
  "sorted g \<Longrightarrow> sorted (fold remove1 D g) \<and> mset (fold remove1 D g) = mset g - mset D"
  by (induction D arbitrary: g) (simp_all add: sorted_remove1)

lemma mset_serialize_facts:
  "mset (serialize_facts X A) = image_mset (serialize X) (mset_set A)"
proof -
  have "mset (sorted_list_of_set A) = mset_set A"
    by (metis mset_sorted_list_of_multiset sorted_list_of_mset_set)
  then show ?thesis by (simp add: serialize_facts_def)
qed

lemma mset_set_diff_swap:
  assumes "finite p" "finite c"
  shows "mset_set p + mset_set (c - p) = mset_set c + mset_set (p - c)"
proof -
  have "mset_set p + mset_set (c - p) = mset_set (p \<union> (c - p))"
    using assms by (subst mset_set_Union) auto
  also have "p \<union> (c - p) = c \<union> (p - c)" by auto
  also have "mset_set (c \<union> (p - c)) = mset_set c + mset_set (p - c)"
    using assms by (subst mset_set_Union) auto
  finally show ?thesis .
qed

lemma mset_set_split:
  assumes "finite F" "K \<subseteq> F"
  shows "mset_set F = mset_set K + mset_set (F - K)"
proof -
  have "F = K \<union> (F - K)" using assms(2) by auto
  then have "mset_set F = mset_set (K \<union> (F - K))" by simp
  also have "\<dots> = mset_set K + mset_set (F - K)"
    using assms by (subst mset_set_Union) (auto intro: finite_subset)
  finally show ?thesis .
qed

lemma mset_serialize_split:
  assumes "finite F" "K \<subseteq> F"
  shows "mset (serialize_facts X F)
           = mset (serialize_facts X K) + mset (serialize_facts X (F - K))"
  by (simp add: mset_serialize_facts mset_set_split [OF assms])

text \<open>
  What applying the commands of a step to the previous graph gives: a sorted list that
  lacks the added facts whose command was dropped and still has the removed facts whose
  command was dropped.
\<close>

lemma apply_synth_commands:
  assumes "finite p" "finite c"
  shows "sorted (apply_commands (synth_commands X p c) (sort (serialize_facts X p)))"
    and "mset (apply_commands (synth_commands X p c) (sort (serialize_facts X p)))
           + mset (serialize_facts X (dropped X (added p c)))
         = mset (sort (serialize_facts X c))
           + mset (serialize_facts X (dropped X (removed p c)))"
proof -
  let ?kA = "collapse X (added p c)"
  let ?kD = "collapse X (removed p c)"
  let ?A = "sort (serialize_facts X ?kA)"
  let ?D = "sort (serialize_facts X ?kD)"
  let ?g = "sort (serialize_facts X p)"
  let ?res = "apply_commands (synth_commands X p c) ?g"
  have fa: "finite (added p c)" and fr: "finite (removed p c)"
    using assms by (simp_all add: added_def removed_def)
  have res: "?res = fold remove1 ?D (fold insort ?A ?g)"
    by (simp add: synth_commands_sorted_form apply_commands_def apply_adds apply_deletes
          del: append.simps)
  have s1: "sorted (fold insort ?A ?g)"
    and m1: "mset (fold insort ?A ?g) = mset ?g + mset ?A"
    using fold_insort_props [of ?g ?A] by simp_all
  have s2: "sorted (fold remove1 ?D (fold insort ?A ?g))"
    and m2: "mset (fold remove1 ?D (fold insort ?A ?g)) = mset ?g + mset ?A - mset ?D"
    using fold_remove1_props [OF s1, of ?D] m1 by simp_all
  show "sorted ?res" using s2 res by simp
  have kDp: "?kD \<subseteq> p"
    using collapse_subset [of X "removed p c"] by (auto simp: removed_def)
  have P: "mset (serialize_facts X p)
             = mset (serialize_facts X ?kD) + mset (serialize_facts X (p - ?kD))"
    by (rule mset_serialize_split [OF assms(1) kDp])
  have A: "mset (serialize_facts X (added p c))
             = mset (serialize_facts X ?kA) + mset (serialize_facts X (dropped X (added p c)))"
    unfolding dropped_def by (rule mset_serialize_split [OF fa collapse_subset])
  have R: "mset (serialize_facts X (removed p c))
             = mset (serialize_facts X ?kD)
               + mset (serialize_facts X (dropped X (removed p c)))"
    unfolding dropped_def by (rule mset_serialize_split [OF fr collapse_subset])
  have swap: "mset (serialize_facts X p) + mset (serialize_facts X (added p c))
                = mset (serialize_facts X c) + mset (serialize_facts X (removed p c))"
  proof -
    have "mset (serialize_facts X p) + mset (serialize_facts X (added p c))
            = image_mset (serialize X) (mset_set p + mset_set (c - p))"
      by (simp add: mset_serialize_facts added_def)
    also have "\<dots> = image_mset (serialize X) (mset_set c + mset_set (p - c))"
      using assms by (simp only: mset_set_diff_swap)
    finally show ?thesis by (simp add: mset_serialize_facts removed_def)
  qed
  have m3: "mset ?res = mset (serialize_facts X (p - ?kD)) + mset (serialize_facts X ?kA)"
    using m2 res P by simp
  have "mset (serialize_facts X ?kD)
          + (mset ?res + mset (serialize_facts X (dropped X (added p c))))
        = mset (serialize_facts X ?kD)
          + (mset (serialize_facts X c)
             + mset (serialize_facts X (dropped X (removed p c))))"
    using swap unfolding m3 P A R by (simp add: ac_simps)
  then show "mset ?res + mset (serialize_facts X (dropped X (added p c)))
         = mset (sort (serialize_facts X c))
           + mset (serialize_facts X (dropped X (removed p c)))"
    by simp
qed

lemma round_trip_sets:
  assumes "finite p" "finite c"
    and "dropped X (added p c) = {}" "dropped X (removed p c) = {}"
  shows "apply_commands (synth_commands X p c) (sort (serialize_facts X p))
           = sort (serialize_facts X c)"
proof -
  let ?res = "apply_commands (synth_commands X p c) (sort (serialize_facts X p))"
  have "sorted ?res" and "mset ?res = mset (serialize_facts X c)"
    using apply_synth_commands [OF assms(1,2), of X] assms(3,4)
    by (simp_all add: serialize_facts_empty)
  then have "sort (serialize_facts X c) = ?res"
    by (intro properties_for_sort) simp_all
  then show ?thesis by simp
qed

lemma command_key_add: "command_key (''add '' @ f) = (''add'', f)"
  by (simp add: command_key_def)

lemma command_key_delete: "command_key (''delete '' @ f) = (''delete'', f)"
  by (simp add: command_key_def)

lemma sorted_command_keys:
  assumes "sorted A" "sorted D"
  shows "sorted (map command_key (map ((@) ''add '') A @ map ((@) ''delete '') D))"
proof -
  have 1: "map command_key (map ((@) ''add '') A) = map (Pair ''add'') A"
    by (induction A) (simp_all add: command_key_add del: append.simps)
  have 2: "map command_key (map ((@) ''delete '') D) = map (Pair ''delete'') D"
    by (induction D) (simp_all add: command_key_delete del: append.simps)
  have 3: "sorted (map (Pair ''add'') A)" using assms(1)
    by (induction A) (auto simp: less_eq_prod_def)
  have 4: "sorted (map (Pair ''delete'') D)" using assms(2)
    by (induction D) (auto simp: less_eq_prod_def)
  have 5: "(''add'', a) \<le> (''delete'', d)" for a d :: string
    by (simp add: less_eq_prod_def)
  show ?thesis
    unfolding map_append 1 2 using 3 4 5 by (auto simp: sorted_append)
qed

section \<open>Loops\<close>

lemma for_loop_invariant:
  assumes run: "for_loop body xs s = Inr s'"
    and init: "Q s"
    and step: "\<forall>x s t. Q s \<and> x \<in> set xs
                 \<and> (body x s = Inr (Continue t) \<or> body x s = Inr (Break t)) \<longrightarrow> Q t"
  shows "Q s'"
  using run init step
proof (induction xs arbitrary: s)
  case Nil
  then show ?case by simp
next
  case (Cons x xs)
  have step': "\<forall>x s t. Q s \<and> x \<in> set xs
                 \<and> (body x s = Inr (Continue t) \<or> body x s = Inr (Break t)) \<longrightarrow> Q t"
    using Cons.prems(3) by (meson list.set_intros(2))
  show ?case
  proof (cases "body x s")
    case (Inl e)
    with Cons.prems(1) show ?thesis by simp
  next
    case (Inr f)
    show ?thesis
    proof (cases f)
      case (Continue t)
      with Inr Cons.prems(1) have r: "for_loop body xs t = Inr s'" by simp
      have "Q t" using Cons.prems(2,3) Inr Continue by (meson list.set_intros(1))
      then show ?thesis using Cons.IH [OF r _ step'] by blast
    next
      case (Break t)
      with Inr Cons.prems(1) have "s' = t" by simp
      moreover have "Q t" using Cons.prems(2,3) Inr Break by (meson list.set_intros(1))
      ultimately show ?thesis by simp
    qed
  qed
qed

subsection \<open>One iteration of the inner loop\<close>

lemma explore_body_cases:
  assumes "explore_body X g w i j s = Inr f"
  obtains
    (exhausted) "eligible_commands w i (admissible_commands (infos s)) = Inr []" "f = Break s"
  | (finished) cs c r' ob info e' where
      "eligible_commands w i (admissible_commands (infos s)) = Inr cs" "cs \<noteq> []"
      "choice X (rng s) cs = (c, r')" "env_step X (env_' s) c = ((ob, True, info), e')"
      "f = Break (s\<lparr> rng := r', env_' := e', obs := ob, done' := True, infos := info \<rparr>)"
  | (stepped) cs c r' ob info e' where
      "eligible_commands w i (admissible_commands (infos s)) = Inr cs" "cs \<noteq> []"
      "choice X (rng s) cs = (c, r')" "env_step X (env_' s) c = ((ob, False, info), e')"
      "f = Continue (s\<lparr> rng := r', env_' := e', obs := ob, done' := False, infos := info,
             facts_seen_' := process_facts X (facts_seen_' s) (info_game info) (info_facts info)
                               (info_last_action info) c,
             dataset := dataset s @ [mk_datum X g (int i, j) ob c (facts_seen_' s)
                (process_facts X (facts_seen_' s) (info_game info) (info_facts info)
                               (info_last_action info) c)] \<rparr>)"
proof (cases "eligible_commands w i (admissible_commands (infos s))")
  case (Inl e)
  with assms show ?thesis by (simp add: explore_body_def)
next
  case (Inr cs)
  show ?thesis
  proof (cases "cs = []")
    case True
    with Inr assms have "f = Break s" by (simp add: explore_body_def)
    with Inr True exhausted show ?thesis by simp
  next
    case False
    obtain c r' where ch: "choice X (rng s) cs = (c, r')" by (cases "choice X (rng s) cs")
    obtain ob dn info e' where st: "env_step X (env_' s) c = ((ob, dn, info), e')"
      by (cases "env_step X (env_' s) c") auto
    show ?thesis
    proof (cases dn)
      case True
      have "f = Break (s\<lparr> rng := r', env_' := e', obs := ob, done' := True, infos := info \<rparr>)"
        using assms Inr False ch st True by (simp add: explore_body_def)
      then show ?thesis using finished Inr False ch st True by simp
    next
      case dnF: False
      have "f = Continue (s\<lparr> rng := r', env_' := e', obs := ob, done' := False, infos := info,
             facts_seen_' := process_facts X (facts_seen_' s) (info_game info) (info_facts info)
                               (info_last_action info) c,
             dataset := dataset s @ [mk_datum X g (int i, j) ob c (facts_seen_' s)
                (process_facts X (facts_seen_' s) (info_game info) (info_facts info)
                               (info_last_action info) c)] \<rparr>)"
        using assms Inr False ch st dnF by (simp add: explore_body_def Let_def)
      then show ?thesis using stepped Inr False ch st dnF by simp
    qed
  qed
qed

text \<open>
  What an iteration of the inner loop leaves alone, and what it may append: at most one
  record, made from the branch's own seen set.
\<close>

lemma explore_body_effect:
  assumes "explore_body X g w i j s = Inr f" and "f = Continue t \<or> f = Break t"
  shows "env t = env s \<and> facts_seen t = facts_seen s
         \<and> (dataset t = dataset s \<and> facts_seen_' t = facts_seen_' s
            \<or> (\<exists>ob c gm fs la. f = Continue t
                 \<and> facts_seen_' t = process_facts X (facts_seen_' s) gm fs la c
                 \<and> dataset t = dataset s
                      @ [mk_datum X g (int i, j) ob c (facts_seen_' s) (facts_seen_' t)]))"
  using assms(1)
proof (cases rule: explore_body_cases)
  case exhausted
  with assms(2) show ?thesis by auto
next
  case (finished cs c r' ob info e')
  with assms(2) show ?thesis by auto
next
  case (stepped cs c r' ob info e')
  with assms(2) have t: "t = s\<lparr> rng := r', env_' := e', obs := ob, done' := False, infos := info,
             facts_seen_' := process_facts X (facts_seen_' s) (info_game info) (info_facts info)
                               (info_last_action info) c,
             dataset := dataset s @ [mk_datum X g (int i, j) ob c (facts_seen_' s)
                (process_facts X (facts_seen_' s) (info_game info) (info_facts info)
                               (info_last_action info) c)] \<rparr>" and f: "f = Continue t"
    by auto
  have "env t = env s" "facts_seen t = facts_seen s" by (simp_all add: t)
  moreover have "facts_seen_' t = process_facts X (facts_seen_' s) (info_game info)
      (info_facts info) (info_last_action info) c" by (simp add: t)
  moreover have "dataset t = dataset s
       @ [mk_datum X g (int i, j) ob c (facts_seen_' s) (facts_seen_' t)]"
    by (simp add: t)
  ultimately show ?thesis using f by blast
qed

subsection \<open>The inner loop\<close>

lemma explore_invariant:
  assumes run: "explore X g d w i s = Inr s'"
    and I0: "I (facts_seen_' s)"
    and P0: "\<forall>r\<in>set (dataset s). P r"
    and pf: "\<forall>prev gm fs la c. I prev \<longrightarrow> I (process_facts X prev gm fs la c)"
    and rec: "\<forall>j ob c prev gm fs la. 1 \<le> j \<and> j \<le> d \<and> I prev
                \<longrightarrow> P (mk_datum X g (int i, j) ob c prev
                       (process_facts X prev gm fs la c))"
  shows "I (facts_seen_' s') \<and> (\<forall>r\<in>set (dataset s'). P r)"
proof -
  let ?Q = "\<lambda>t. I (facts_seen_' t) \<and> (\<forall>r\<in>set (dataset t). P r)"
  have "?Q s'"
  proof (rule for_loop_invariant [where Q = ?Q, OF run [unfolded explore_def]])
    show "?Q s" using I0 P0 by simp
    show "\<forall>j s t. ?Q s \<and> j \<in> set [1..d]
            \<and> (explore_body X g w i j s = Inr (Continue t)
                \<or> explore_body X g w i j s = Inr (Break t)) \<longrightarrow> ?Q t"
    proof (intro allI impI, elim conjE)
      fix j s t
      assume Is: "I (facts_seen_' s)" and Ps: "\<forall>r\<in>set (dataset s). P r"
        and j: "j \<in> set [1..d]"
        and b: "explore_body X g w i j s = Inr (Continue t)
                 \<or> explore_body X g w i j s = Inr (Break t)"
      from b obtain f where f: "explore_body X g w i j s = Inr f"
        and ft: "f = Continue t \<or> f = Break t" by blast
      from explore_body_effect [OF f ft]
      consider (same) "dataset t = dataset s" "facts_seen_' t = facts_seen_' s"
        | (more) ob c gm fs la where
            "facts_seen_' t = process_facts X (facts_seen_' s) gm fs la c"
            "dataset t = dataset s
               @ [mk_datum X g (int i, j) ob c (facts_seen_' s) (facts_seen_' t)]"
        by blast
      then show "?Q t"
      proof cases
        case same
        then show ?thesis using Is Ps by simp
      next
        case more
        have It: "I (facts_seen_' t)" using more(1) pf Is by simp
        have "P (mk_datum X g (int i, j) ob c (facts_seen_' s) (facts_seen_' t))"
          unfolding more(1) using rec j Is by simp
        then show ?thesis using It Ps more(2) by simp
      qed
    qed
  qed
  then show ?thesis .
qed

lemma explore_frame:
  assumes run: "explore X g d w i s = Inr s'"
  shows "env s' = env s \<and> facts_seen s' = facts_seen s"
proof -
  let ?Q = "\<lambda>t. env t = env s \<and> facts_seen t = facts_seen s"
  have "?Q s'"
  proof (rule for_loop_invariant [where Q = ?Q, OF run [unfolded explore_def]])
    show "?Q s" by simp
    show "\<forall>j u t. ?Q u \<and> j \<in> set [1..d]
            \<and> (explore_body X g w i j u = Inr (Continue t)
                \<or> explore_body X g w i j u = Inr (Break t)) \<longrightarrow> ?Q t"
    proof (intro allI impI, elim conjE)
      fix j u t
      assume u: "env u = env s" "facts_seen u = facts_seen s"
        and b: "explore_body X g w i j u = Inr (Continue t)
                 \<or> explore_body X g w i j u = Inr (Break t)"
      from b obtain f where f: "explore_body X g w i j u = Inr f"
        and ft: "f = Continue t \<or> f = Break t" by blast
      from explore_body_effect [OF f ft] have "env t = env u" "facts_seen t = facts_seen u"
        by blast+
      then show "?Q t" using u by simp
    qed
  qed
  then show ?thesis .
qed

lemma explore_dataset:
  assumes run: "explore X g d w i s = Inr s'"
  shows "\<exists>ext. dataset s' = dataset s @ ext
           \<and> (\<forall>r\<in>set ext. fst (step r) = int i \<and> 1 \<le> snd (step r) \<and> snd (step r) \<le> d)"
proof -
  let ?Q = "\<lambda>t. \<exists>ext. dataset t = dataset s @ ext
           \<and> (\<forall>r\<in>set ext. fst (step r) = int i \<and> 1 \<le> snd (step r) \<and> snd (step r) \<le> d)"
  have "?Q s'"
  proof (rule for_loop_invariant [where Q = ?Q, OF run [unfolded explore_def]])
    show "?Q s" by simp
    show "\<forall>j u t. ?Q u \<and> j \<in> set [1..d]
            \<and> (explore_body X g w i j u = Inr (Continue t)
                \<or> explore_body X g w i j u = Inr (Break t)) \<longrightarrow> ?Q t"
    proof (intro allI impI, elim conjE exE)
      fix j u t ext
      assume u: "dataset u = dataset s @ ext"
        and ext: "\<forall>r\<in>set ext. fst (step r) = int i \<and> 1 \<le> snd (step r) \<and> snd (step r) \<le> d"
        and j: "j \<in> set [1..d]"
        and b: "explore_body X g w i j u = Inr (Continue t)
                 \<or> explore_body X g w i j u = Inr (Break t)"
      from b obtain f where f: "explore_body X g w i j u = Inr f"
        and ft: "f = Continue t \<or> f = Break t" by blast
      from explore_body_effect [OF f ft]
      consider (same) "dataset t = dataset u"
        | (more) ob c prev seen where
            "dataset t = dataset u @ [mk_datum X g (int i, j) ob c prev seen]"
        by blast
      then show "?Q t"
      proof cases
        case same
        then show ?thesis using u ext by auto
      next
        case more
        let ?r = "mk_datum X g (int i, j) ob c prev seen"
        have "dataset t = dataset s @ (ext @ [?r])" using more u by simp
        moreover have "\<forall>r\<in>set (ext @ [?r]).
            fst (step r) = int i \<and> 1 \<le> snd (step r) \<and> snd (step r) \<le> d"
          using ext j by (auto simp: mk_datum_def)
        ultimately show ?thesis by blast
      qed
    qed
  qed
  then show ?thesis .
qed

subsection \<open>One iteration of the outer loop\<close>

lemma after_command_keeps:
  "facts_seen (after_command X i cmd s) = facts_seen s"
  "dataset (after_command X i cmd s) = dataset s"
  "rng (after_command X i cmd s) = rng s"
  by (simp_all add: after_command_def split: prod.splits)

lemma after_command_0: "after_command X 0 cmd s = s"
  by (simp add: after_command_def)

lemma recorded_simps:
  "facts_seen (recorded X g i cmd lf s1) =
     process_facts X lf (info_game (infos s1)) (info_facts (infos s1))
       (info_last_action (infos s1)) cmd"
  "dataset (recorded X g i cmd lf s1) =
     dataset s1 @ [mk_datum X g (int i, 0) (obs s1) cmd lf
                     (facts_seen (recorded X g i cmd lf s1))]"
  "done' (recorded X g i cmd lf s1) = done' s1"
  "env (recorded X g i cmd lf s1) = env s1"
  by (simp_all add: recorded_def Let_def)

lemma fork_simps:
  "facts_seen (fork s) = facts_seen s" "dataset (fork s) = dataset s"
  "env (fork s) = env s" "facts_seen_' (fork s) = facts_seen s" "done' (fork s) = done' s"
  by (simp_all add: fork_def)

lemma walk_body_cases:
  assumes "walk_body X g d w (i, cmd) s = Inr f"
  obtains
    (finished) "done' (after_command X i cmd s)"
      "f = Break (recorded X g i cmd (facts_seen s) (after_command X i cmd s))"
  | (forked) s3 where "\<not> done' (after_command X i cmd s)"
      "explore X g d w i (fork (recorded X g i cmd (facts_seen s) (after_command X i cmd s)))
         = Inr s3"
      "f = Continue s3"
proof (cases "done' (after_command X i cmd s)")
  case True
  then have "f = Break (recorded X g i cmd (facts_seen s) (after_command X i cmd s))"
    using assms by (simp add: walk_body_def Let_def recorded_simps)
  with True finished show ?thesis by simp
next
  case False
  then obtain s3 where
    "explore X g d w i (fork (recorded X g i cmd (facts_seen s) (after_command X i cmd s)))
       = Inr s3" "f = Continue s3"
    using assms by (auto simp: walk_body_def Let_def recorded_simps split: sum.splits)
  with False forked show ?thesis by simp
qed

text \<open>
  An iteration of the outer loop replaces the seen set by what \<open>process_facts\<close> makes of
  it, appends the record of the walkthrough step, and then only records of the branch.
\<close>

lemma walk_body_effect:
  assumes "walk_body X g d w (i, cmd) s = Inr f" and "f = Continue t \<or> f = Break t"
  shows "\<exists>gm fs la ob ext.
           facts_seen t = process_facts X (facts_seen s) gm fs la cmd
           \<and> dataset t = dataset s
                @ [mk_datum X g (int i, 0) ob cmd (facts_seen s) (facts_seen t)] @ ext
           \<and> (\<forall>r\<in>set ext. fst (step r) = int i \<and> 1 \<le> snd (step r) \<and> snd (step r) \<le> d)"
  using assms(1)
proof (cases rule: walk_body_cases)
  case finished
  let ?s1 = "after_command X i cmd s"
  from finished assms(2) have t: "t = recorded X g i cmd (facts_seen s) ?s1" by auto
  have "facts_seen t = process_facts X (facts_seen s) (info_game (infos ?s1))
          (info_facts (infos ?s1)) (info_last_action (infos ?s1)) cmd"
    by (simp add: t recorded_simps)
  moreover have "dataset t = dataset s
        @ [mk_datum X g (int i, 0) (obs ?s1) cmd (facts_seen s) (facts_seen t)] @ []"
    by (simp add: t recorded_simps after_command_keeps)
  ultimately show ?thesis by (metis empty_iff list.set(1))
next
  case (forked s3)
  let ?s1 = "after_command X i cmd s"
  let ?s2 = "recorded X g i cmd (facts_seen s) ?s1"
  from forked assms(2) have t: "t = s3" by auto
  from explore_frame [OF forked(2)] have fs: "facts_seen t = facts_seen ?s2"
    by (simp add: t fork_simps)
  from explore_dataset [OF forked(2)] obtain ext where
    ext: "dataset t = dataset ?s2 @ ext"
      "\<forall>r\<in>set ext. fst (step r) = int i \<and> 1 \<le> snd (step r) \<and> snd (step r) \<le> d"
    unfolding t fork_simps by blast
  have "facts_seen t = process_facts X (facts_seen s) (info_game (infos ?s1))
          (info_facts (infos ?s1)) (info_last_action (infos ?s1)) cmd"
    by (simp add: fs recorded_simps)
  moreover have "dataset t = dataset s
        @ [mk_datum X g (int i, 0) (obs ?s1) cmd (facts_seen s) (facts_seen t)] @ ext"
    using ext(1) by (simp add: fs recorded_simps after_command_keeps)
  ultimately show ?thesis using ext(2) by blast
qed

subsection \<open>The outer loop\<close>

lemma walk_invariant:
  assumes run: "walk X g d w rest s = Inr s'"
    and I0: "I (facts_seen s)"
    and P0: "\<forall>r\<in>set (dataset s). P r"
    and pf: "\<forall>prev gm fs la c. I prev \<longrightarrow> I (process_facts X prev gm fs la c)"
    and wrec: "\<forall>i c ob prev gm fs la. (i, c) \<in> set rest \<and> I prev
                \<longrightarrow> P (mk_datum X g (int i, 0) ob c prev
                       (process_facts X prev gm fs la c))"
    and erec: "\<forall>i j ob c prev gm fs la. 1 \<le> j \<and> j \<le> d \<and> I prev
                \<longrightarrow> P (mk_datum X g (int i, j) ob c prev
                       (process_facts X prev gm fs la c))"
  shows "I (facts_seen s') \<and> (\<forall>r\<in>set (dataset s'). P r)"
proof -
  let ?Q = "\<lambda>t. I (facts_seen t) \<and> (\<forall>r\<in>set (dataset t). P r)"
  have "?Q s'"
  proof (rule for_loop_invariant [where Q = ?Q, OF run [unfolded walk_def]])
    show "?Q s" using I0 P0 by simp
    show "\<forall>ic u t. ?Q u \<and> ic \<in> set rest
            \<and> (walk_body X g d w ic u = Inr (Continue t)
                \<or> walk_body X g d w ic u = Inr (Break t)) \<longrightarrow> ?Q t"
    proof (intro allI impI, elim conjE)
      fix ic u t
      assume Iu: "I (facts_seen u)" and Pu: "\<forall>r\<in>set (dataset u). P r"
        and ic: "ic \<in> set rest"
        and b: "walk_body X g d w ic u = Inr (Continue t)
                 \<or> walk_body X g d w ic u = Inr (Break t)"
      obtain i cmd where ic_eq: "ic = (i, cmd)" by (cases ic)
      from b obtain f where f: "walk_body X g d w (i, cmd) u = Inr f"
        and ft: "f = Continue t \<or> f = Break t" unfolding ic_eq by blast
      let ?s1 = "after_command X i cmd u"
      let ?s2 = "recorded X g i cmd (facts_seen u) ?s1"
      have I2: "I (facts_seen ?s2)" using pf Iu by (simp add: recorded_simps)
      have "P (mk_datum X g (int i, 0) (obs ?s1) cmd (facts_seen u) (facts_seen ?s2))"
        unfolding recorded_simps using wrec ic Iu unfolding ic_eq by blast
      then have P2: "\<forall>r\<in>set (dataset ?s2). P r"
        using Pu by (simp add: recorded_simps after_command_keeps)
      from f show "?Q t"
      proof (cases rule: walk_body_cases)
        case finished
        with ft have "t = ?s2" by auto
        then show ?thesis using I2 P2 by simp
      next
        case (forked s3)
        with ft have t: "t = s3" by auto
        have "I (facts_seen_' s3) \<and> (\<forall>r\<in>set (dataset s3). P r)"
        proof (rule explore_invariant [OF forked(2), where I = I and P = P])
          show "I (facts_seen_' (fork ?s2))" using I2 by (simp add: fork_simps)
          show "\<forall>r\<in>set (dataset (fork ?s2)). P r" using P2 by (simp add: fork_simps)
          show "\<forall>prev gm fs la c. I prev \<longrightarrow> I (process_facts X prev gm fs la c)" by (rule pf)
          show "\<forall>j ob c prev gm fs la. 1 \<le> j \<and> j \<le> d \<and> I prev
                  \<longrightarrow> P (mk_datum X g (int i, j) ob c prev
                         (process_facts X prev gm fs la c))"
            using erec by blast
        qed
        moreover have "facts_seen s3 = facts_seen ?s2"
          using explore_frame [OF forked(2)] by (simp add: fork_simps)
        ultimately show ?thesis using I2 t by simp
      qed
    qed
  qed
  then show ?thesis .
qed

subsection \<open>The whole function\<close>

lemma collect_data_from_game_cases:
  assumes "collect_data_from_game X gamefile seed d = Inr (gf, ds)"
  obtains ob info e w s' where
    "reset X (start X gamefile) = ((ob, info), e)"
    "normalize_walkthrough (extra_walkthrough info) = Inr w"
    "walk X gamefile d w (enumerate 0 w)
       \<lparr> env = e, env_' = e, obs = ob, infos = info, done' = False,
         facts_seen = {}, facts_seen_' = {}, dataset = [],
         rng = RandomState X seed \<rparr> = Inr s'"
    "gf = gamefile" "ds = dataset s'"
proof -
  obtain ob info e where r: "reset X (start X gamefile) = ((ob, info), e)"
    by (cases "reset X (start X gamefile)") auto
  show ?thesis
  proof (cases "normalize_walkthrough (extra_walkthrough info)")
    case (Inl err)
    with assms r show ?thesis by (simp add: collect_data_from_game_def)
  next
    case (Inr w)
    let ?s0 = "\<lparr> env = e, env_' = e, obs = ob, infos = info, done' = False,
         facts_seen = {}, facts_seen_' = {}, dataset = [],
         rng = RandomState X seed \<rparr> :: ('a, 'b, 'c, 'd, 'e, 'f) vars"
    show ?thesis
    proof (cases "walk X gamefile d w (enumerate 0 w) ?s0")
      case (Inl err)
      with assms r Inr show ?thesis by (simp add: collect_data_from_game_def)
    next
      case walked: (Inr s')
      with assms r Inr have "gf = gamefile" "ds = dataset s'"
        by (simp_all add: collect_data_from_game_def)
      with that r Inr walked show ?thesis by blast
    qed
  qed
qed

lemma collect_invariant:
  assumes run: "collect_data_from_game X gamefile seed d = Inr (gf, ds)"
    and I0: "I {}"
    and pf: "\<forall>prev gm fs la c. I prev \<longrightarrow> I (process_facts X prev gm fs la c)"
    and rec: "\<forall>st ob c prev gm fs la. I prev
                \<longrightarrow> P (mk_datum X gamefile st ob c prev
                       (process_facts X prev gm fs la c))"
  shows "\<forall>r\<in>set ds. P r"
  using run
proof (cases rule: collect_data_from_game_cases)
  case (1 ob info e w s')
  have "I (facts_seen s') \<and> (\<forall>r\<in>set (dataset s'). P r)"
  proof (rule walk_invariant [OF 1(3), where I = I and P = P])
    show "\<forall>prev gm fs la c. I prev \<longrightarrow> I (process_facts X prev gm fs la c)" by (rule pf)
  qed (use I0 rec in simp_all)
  then show ?thesis using 1(5) by simp
qed

subsection \<open>The first iteration of the outer loop\<close>

lemma walk_dataset_prefix:
  assumes run: "walk X g d w rest s = Inr s'"
  shows "\<exists>ext. dataset s' = dataset s @ ext"
proof -
  let ?Q = "\<lambda>t. \<exists>ext. dataset t = dataset s @ ext"
  have "?Q s'"
  proof (rule for_loop_invariant [where Q = ?Q, OF run [unfolded walk_def]])
    show "?Q s" by simp
    show "\<forall>ic u t. ?Q u \<and> ic \<in> set rest
            \<and> (walk_body X g d w ic u = Inr (Continue t)
                \<or> walk_body X g d w ic u = Inr (Break t)) \<longrightarrow> ?Q t"
    proof (intro allI impI, elim conjE exE)
      fix ic u t ext
      assume u: "dataset u = dataset s @ ext"
        and b: "walk_body X g d w ic u = Inr (Continue t)
                 \<or> walk_body X g d w ic u = Inr (Break t)"
      obtain i cmd where ic_eq: "ic = (i, cmd)" by (cases ic)
      from b obtain f where f: "walk_body X g d w (i, cmd) u = Inr f"
        and ft: "f = Continue t \<or> f = Break t" unfolding ic_eq by blast
      from walk_body_effect [OF f ft] obtain r ext' where
        "dataset t = dataset u @ [r] @ ext'" by blast
      then have "dataset t = dataset s @ (ext @ [r] @ ext')" using u by simp
      then show "?Q t" by blast
    qed
  qed
  then show ?thesis .
qed

lemma walk_Cons_cases:
  assumes "walk X g d w ((i, cmd) # rest) s = Inr s'"
  obtains
    (finished) "done' (after_command X i cmd s)"
      "s' = recorded X g i cmd (facts_seen s) (after_command X i cmd s)"
  | (continued) s3 where "\<not> done' (after_command X i cmd s)"
      "explore X g d w i (fork (recorded X g i cmd (facts_seen s) (after_command X i cmd s)))
         = Inr s3"
      "walk X g d w rest s3 = Inr s'"
proof (cases "walk_body X g d w (i, cmd) s")
  case (Inl e)
  with assms show ?thesis by (simp add: walk_def)
next
  case (Inr f)
  then show ?thesis
  proof (cases rule: walk_body_cases)
    case 1: finished
    with Inr assms have "s' = recorded X g i cmd (facts_seen s) (after_command X i cmd s)"
      by (simp add: walk_def)
    with 1 finished show ?thesis by simp
  next
    case (forked s3)
    with Inr assms have "walk X g d w rest s3 = Inr s'" by (simp add: walk_def)
    with forked continued show ?thesis by simp
  qed
qed

lemma walk_Cons_record:
  assumes "walk X g d w ((i, cmd) # rest) s = Inr s'"
  shows "\<exists>ext. dataset s' = dataset s
           @ [mk_datum X g (int i, 0) (obs (after_command X i cmd s)) cmd (facts_seen s)
                (process_facts X (facts_seen s) (info_game (infos (after_command X i cmd s)))
                   (info_facts (infos (after_command X i cmd s)))
                   (info_last_action (infos (after_command X i cmd s))) cmd)] @ ext"
  using assms
proof (cases rule: walk_Cons_cases)
  case finished
  then show ?thesis by (simp add: recorded_simps after_command_keeps)
next
  case (continued s3)
  let ?s2 = "recorded X g i cmd (facts_seen s) (after_command X i cmd s)"
  from explore_dataset [OF continued(2)] obtain e1 where "dataset s3 = dataset ?s2 @ e1"
    unfolding fork_simps by blast
  moreover from walk_dataset_prefix [OF continued(3)] obtain e2 where
    "dataset s' = dataset s3 @ e2" by blast
  ultimately have "dataset s' = dataset ?s2 @ (e1 @ e2)" by simp
  then show ?thesis by (simp add: recorded_simps after_command_keeps)
qed

lemma normalize_walkthrough_cases:
  assumes "normalize_walkthrough w0 = Inr w"
  obtains rest where "w = ''restart'' # ''inventory'' # rest"
  using assms by (auto simp: normalize_walkthrough_def split: list.splits if_splits)

lemma lower_restart_inventory:
  "lower ''restart'' = ''restart''" "lower ''inventory'' = ''inventory''"
  by (simp_all add: lower_def lower_char_def)

lemma first_record:
  assumes run: "collect_data_from_game X gamefile seed d = Inr (gf, ds)"
    and res: "reset X (start X gamefile) = ((ob, info), e)"
  shows "\<exists>ext. ds = mk_datum X gamefile (0, 0) ob ''restart'' {}
                      (process_facts X {} (info_game info) (info_facts info)
                         (info_last_action info) ''restart'') # ext"
  using run
proof (cases rule: collect_data_from_game_cases)
  case (1 ob' info' e' w s')
  from 1(1) res have eq: "ob' = ob" "info' = info" "e' = e" by simp_all
  from 1(2) obtain rest where w: "w = ''restart'' # ''inventory'' # rest"
    by (rule normalize_walkthrough_cases)
  have en: "enumerate 0 w = (0, ''restart'') # enumerate 1 (''inventory'' # rest)"
    by (simp add: w)
  from walk_Cons_record [OF 1(3) [unfolded en]] show ?thesis
    unfolding 1(5) eq by (simp add: after_command_0)
qed

lemma second_record:
  assumes run: "collect_data_from_game X gamefile seed d = Inr (gf, ds)"
  shows "\<exists>r\<in>set ds. step r = (1, 0) \<and> previous_action r = ''inventory''"
  using run
proof (cases rule: collect_data_from_game_cases)
  case (1 ob info e w s')
  let ?s0 = "\<lparr> env = e, env_' = e, obs = ob, infos = info, done' = False,
         facts_seen = {}, facts_seen_' = {}, dataset = [],
         rng = RandomState X seed \<rparr> :: ('a, 'b, 'c, 'd, 'e, 'f) vars"
  from 1(2) obtain rest where w: "w = ''restart'' # ''inventory'' # rest"
    by (rule normalize_walkthrough_cases)
  have en: "enumerate 0 w = (0, ''restart'') # (1, ''inventory'') # enumerate 2 rest"
    by (simp add: w numeral_2_eq_2)
  from 1(3) [unfolded en] show ?thesis
  proof (cases rule: walk_Cons_cases)
    case finished
    then show ?thesis by (simp add: after_command_0)
  next
    case (continued s3)
    from walk_Cons_record [OF continued(3)] obtain ob1 prev seen ext where
      "dataset s' = dataset s3 @ [mk_datum X gamefile (int 1, 0) ob1 ''inventory'' prev seen] @ ext"
      by blast
    then have "mk_datum X gamefile (1, 0) ob1 ''inventory'' prev seen \<in> set ds"
      unfolding 1(5) by simp
    moreover have "step (mk_datum X gamefile (1, 0) ob1 ''inventory'' prev seen) = (1, 0)"
      "previous_action (mk_datum X gamefile (1, 0) ob1 ''inventory'' prev seen) = ''inventory''"
      by (simp_all add: mk_datum_def lower_restart_inventory)
    ultimately show ?thesis by blast
  qed
qed

lemma walkthrough_records:
  assumes run: "collect_data_from_game X gamefile seed d = Inr (gf, ds)"
    and res: "reset X (start X gamefile) = ((ob, info), e)"
    and nw: "normalize_walkthrough (extra_walkthrough info) = Inr w"
  shows "\<forall>r\<in>set ds. \<forall>i. step r = (int i, 0) \<longrightarrow> i < length w \<and> previous_action r = lower (w ! i)"
  using run
proof (cases rule: collect_data_from_game_cases)
  case (1 ob' info' e' w' s')
  from 1(1) res 1(2) nw have eq: "w' = w" by simp
  let ?P = "\<lambda>r. \<forall>i. step r = (int i, 0) \<longrightarrow> i < length w \<and> previous_action r = lower (w ! i)"
  have "True \<and> (\<forall>r\<in>set (dataset s'). ?P r)"
  proof (rule walk_invariant [OF 1(3) [unfolded eq], where I = "\<lambda>_. True" and P = ?P])
    show "\<forall>i c ob prev gm fs la. (i, c) \<in> set (enumerate 0 w) \<and> True
            \<longrightarrow> ?P (mk_datum X gamefile (int i, 0) ob c prev
                   (process_facts X prev gm fs la c))"
      by (auto simp: mk_datum_def in_set_enumerate_eq)
    show "\<forall>i j ob c prev gm fs la. 1 \<le> j \<and> j \<le> d \<and> True
            \<longrightarrow> ?P (mk_datum X gamefile (int i, j) ob c prev
                   (process_facts X prev gm fs la c))"
      by (auto simp: mk_datum_def)
  qed simp_all
  then show ?thesis unfolding 1(5) by simp
qed

subsection \<open>Leaving the loops\<close>

lemma walk_Cons_done:
  assumes "done' (after_command X i cmd s)"
  shows "walk X g d w ((i, cmd) # rest) s
           = Inr (recorded X g i cmd (facts_seen s) (after_command X i cmd s))"
  using assms by (simp add: walk_def walk_body_def Let_def recorded_simps)

lemma walk_Cons_continue:
  assumes "\<not> done' (after_command X i cmd s)"
    and "explore X g d w i (fork (recorded X g i cmd (facts_seen s) (after_command X i cmd s)))
           = Inr s3"
  shows "walk X g d w ((i, cmd) # rest) s = walk X g d w rest s3"
  using assms by (simp add: walk_def walk_body_def Let_def recorded_simps)

lemma explore_depth_0: "explore X g 0 w i s = Inr s"
  by (simp add: explore_def)

lemma explore_exhausted:
  assumes "eligible_commands w i (admissible_commands (infos s)) = Inr []"
  shows "for_loop (explore_body X g w i) (j # js) s = Inr s"
  using assms by (simp add: explore_body_def)

lemma explore_finished:
  assumes "eligible_commands w i (admissible_commands (infos s)) = Inr cs" "cs \<noteq> []"
    and "choice X (rng s) cs = (c, r')"
    and "env_step X (env_' s) c = ((ob, True, info), e')"
  shows "for_loop (explore_body X g w i) (j # js) s
           = Inr (s\<lparr> rng := r', env_' := e', obs := ob, done' := True, infos := info \<rparr>)"
  using assms by (simp add: explore_body_def)

lemma after_command_pos:
  assumes "0 < i"
  shows "done' (after_command X i cmd s) = reports_done X (env s) cmd"
    "env (after_command X i cmd s) = snd (env_step X (env s) cmd)"
  using assms by (simp_all add: after_command_def reports_done_def split: prod.splits)

lemma walk_stops_after_done:
  assumes "walk X g d w (enumerate n xs) s = Inr s'" "0 < n" "n \<le> k" "k < n + length xs"
    and "reports_done X (env_after X (env s) (take (k - n) xs)) (xs ! (k - n))"
  shows "\<exists>ext. dataset s' = dataset s @ ext
           \<and> (\<forall>r\<in>set ext. fst (step r) < int k \<or> step r = (int k, 0))"
  using assms
proof (induction xs arbitrary: n s)
  case Nil
  then show ?case by simp
next
  case (Cons x xs)
  let ?s1 = "after_command X n x s"
  let ?s2 = "recorded X g n x (facts_seen s) ?s1"
  have run: "walk X g d w ((n, x) # enumerate (Suc n) xs) s = Inr s'"
    using Cons.prems(1) by simp
  have rec: "\<exists>r. dataset ?s2 = dataset s @ [r] \<and> step r = (int n, 0)"
    by (simp add: recorded_simps after_command_keeps mk_datum_def)
  from run show ?case
  proof (cases rule: walk_Cons_cases)
    case finished
    from rec obtain r where r: "dataset ?s2 = dataset s @ [r]" "step r = (int n, 0)" by blast
    have "fst (step r) < int k \<or> step r = (int k, 0)"
      using r(2) Cons.prems(3) by (cases "n = k") auto
    then show ?thesis using finished(2) r(1) by auto
  next
    case (continued s3)
    have nk: "n < k"
    proof (rule ccontr)
      assume "\<not> n < k"
      with Cons.prems(3) have "k = n" by simp
      with Cons.prems(5) have "reports_done X (env s) x" by (simp add: env_after_def)
      with continued(1) Cons.prems(2) show False by (simp add: after_command_pos)
    qed
    from rec obtain r where r: "dataset ?s2 = dataset s @ [r]" "step r = (int n, 0)" by blast
    from explore_dataset [OF continued(2)] obtain e1 where
      e1: "dataset s3 = dataset ?s2 @ e1" "\<forall>r\<in>set e1. fst (step r) = int n"
      unfolding fork_simps by blast
    have env3: "env s3 = snd (env_step X (env s) x)"
      using explore_frame [OF continued(2)] Cons.prems(2)
      by (simp add: fork_simps recorded_simps after_command_pos)
    have kn: "k - n = Suc (k - Suc n)" using nk by simp
    have "reports_done X (env_after X (env s3) (take (k - Suc n) xs)) (xs ! (k - Suc n))"
      using Cons.prems(5) unfolding kn env3 by (simp add: env_after_def)
    from Cons.IH [OF continued(3) _ _ _ this] nk Cons.prems(4)
    obtain e2 where e2: "dataset s' = dataset s3 @ e2"
      "\<forall>r\<in>set e2. fst (step r) < int k \<or> step r = (int k, 0)" by auto
    have "dataset s' = dataset s @ ([r] @ e1 @ e2)" using e2(1) e1(1) r(1) by simp
    moreover have "\<forall>q\<in>set ([r] @ e1 @ e2). fst (step q) < int k \<or> step q = (int k, 0)"
      using r(2) e1(2) e2(2) nk by auto
    ultimately show ?thesis by blast
  qed
qed

lemma walkthrough_stops_after_done:
  assumes run: "collect_data_from_game X gamefile seed d = Inr (gf, ds)"
    and res: "reset X (start X gamefile) = ((ob, info), e)"
    and nw: "normalize_walkthrough (extra_walkthrough info) = Inr w"
    and k: "0 < k" "k < length w"
    and dn: "reports_done X (env_after X e (take (k - 1) (tl w))) (w ! k)"
  shows "\<forall>r\<in>set ds. fst (step r) < int k \<or> step r = (int k, 0)"
  using run
proof (cases rule: collect_data_from_game_cases)
  case (1 ob' info' e' w' s')
  from 1(1) res 1(2) nw have eq: "w' = w" "e' = e" by simp_all
  let ?s0 = "\<lparr> env = e, env_' = e, obs = ob', infos = info', done' = False,
         facts_seen = {}, facts_seen_' = {}, dataset = [],
         rng = RandomState X seed \<rparr> :: ('a, 'b, 'c, 'd, 'e, 'f) vars"
  from nw obtain rest where w: "w = ''restart'' # ''inventory'' # rest"
    by (rule normalize_walkthrough_cases)
  have en: "enumerate 0 w = (0, ''restart'') # enumerate 1 (tl w)"
    by (simp add: w)
  let ?s2 = "recorded X gamefile 0 ''restart'' (facts_seen ?s0) (after_command X 0 ''restart'' ?s0)"
  from 1(3) [unfolded eq en] show ?thesis
  proof (cases rule: walk_Cons_cases)
    case finished
    then show ?thesis by (simp add: after_command_0)
  next
    case (continued s3)
    have rec: "\<exists>r. dataset ?s2 = [r] \<and> step r = (0, 0)"
      by (simp add: recorded_simps after_command_0 mk_datum_def)
    then obtain r where r: "dataset ?s2 = [r]" "step r = (0, 0)" by blast
    from explore_dataset [OF continued(2)] obtain e1 where
      e1: "dataset s3 = dataset ?s2 @ e1" "\<forall>r\<in>set e1. fst (step r) = int 0"
      unfolding fork_simps by blast
    have env3: "env s3 = e"
      using explore_frame [OF continued(2)]
      by (simp add: fork_simps recorded_simps after_command_0)
    have "reports_done X (env_after X (env s3) (take (k - 1) (tl w))) ((tl w) ! (k - 1))"
      using dn k unfolding env3 by (simp add: w nth_Cons')
    from walk_stops_after_done [OF continued(3) _ _ _ this] k
    obtain e2 where e2: "dataset s' = dataset s3 @ e2"
      "\<forall>r\<in>set e2. fst (step r) < int k \<or> step r = (int k, 0)" by (auto simp: w)
    have "ds = [r] @ e1 @ e2" using e2(1) e1(1) r(1) 1(5) by simp
    moreover have "\<forall>q\<in>set ([r] @ e1 @ e2). fst (step q) < int k \<or> step q = (int k, 0)"
      using r(2) e1(2) e2(2) k by auto
    ultimately show ?thesis by blast
  qed
qed

subsection \<open>The walkthrough does not depend on the exploration\<close>

lemma recorded_rel:
  assumes "env s1 = env t1" "obs s1 = obs t1" "infos s1 = infos t1"
    and "filter (\<lambda>r. snd (step r) = 0) (dataset s1) = dataset t1"
  shows "walk_rel (recorded X g i cmd lf s1) (recorded X g i cmd lf t1)"
  using assms by (simp add: walk_rel_def recorded_def Let_def mk_datum_def)

lemma after_command_rel:
  assumes "0 < i" "walk_rel s t"
  shows "env (after_command X i cmd s) = env (after_command X i cmd t)"
    "obs (after_command X i cmd s) = obs (after_command X i cmd t)"
    "infos (after_command X i cmd s) = infos (after_command X i cmd t)"
    "done' (after_command X i cmd s) = done' (after_command X i cmd t)"
  using assms by (simp_all add: after_command_def walk_rel_def split: prod.splits)

lemma explore_rel:
  assumes "explore X g d w i (fork s2) = Inr s3" "walk_rel s2 t2"
  shows "walk_rel s3 t2"
proof -
  from explore_frame [OF assms(1)] have "env s3 = env s2" "facts_seen s3 = facts_seen s2"
    by (simp_all add: fork_simps)
  moreover from explore_dataset [OF assms(1)] obtain ext where
    "dataset s3 = dataset s2 @ ext" "\<forall>r\<in>set ext. 1 \<le> snd (step r)"
    unfolding fork_simps by blast
  then have "filter (\<lambda>r. snd (step r) = 0) (dataset s3)
               = filter (\<lambda>r. snd (step r) = 0) (dataset s2)"
    by (auto simp: filter_empty_conv)
  ultimately show ?thesis using assms(2) by (simp add: walk_rel_def)
qed

lemma walk_without_exploration:
  assumes "walk X g d w rest s = Inr s'" "walk_rel s t" "\<forall>ic\<in>set rest. 0 < fst ic"
  shows "\<exists>t'. walk X g 0 w rest t = Inr t' \<and> walk_rel s' t'"
  using assms
proof (induction rest arbitrary: s t)
  case Nil
  then show ?case by (simp add: walk_def)
next
  case (Cons ic rest)
  obtain i cmd where ic: "ic = (i, cmd)" by (cases ic)
  have i: "0 < i" using Cons.prems(3) ic by simp
  let ?s1 = "after_command X i cmd s" and ?t1 = "after_command X i cmd t"
  let ?s2 = "recorded X g i cmd (facts_seen s) ?s1"
  let ?t2 = "recorded X g i cmd (facts_seen t) ?t1"
  have fs: "facts_seen s = facts_seen t" using Cons.prems(2) by (simp add: walk_rel_def)
  have ds1: "filter (\<lambda>r. snd (step r) = 0) (dataset ?s1) = dataset ?t1"
    using Cons.prems(2) by (simp add: after_command_keeps walk_rel_def)
  have rel2: "walk_rel ?s2 ?t2"
    unfolding fs
    by (rule recorded_rel) (use after_command_rel [OF i Cons.prems(2)] ds1 in simp_all)
  have dn: "done' ?s1 = done' ?t1" by (rule after_command_rel [OF i Cons.prems(2)])
  from Cons.prems(1) [unfolded ic] show ?case
  proof (cases rule: walk_Cons_cases)
    case finished
    then have "walk X g 0 w (ic # rest) t = Inr ?t2"
      unfolding ic using dn walk_Cons_done [of X i cmd t g 0 w rest] by simp
    then show ?thesis using finished(2) rel2 by simp
  next
    case (continued s3)
    have rel3: "walk_rel s3 (fork ?t2)"
      using explore_rel [OF continued(2) rel2] by (simp add: walk_rel_def fork_simps)
    have "\<not> done' ?t1" using continued(1) dn by simp
    from walk_Cons_continue [OF this explore_depth_0]
    have "walk X g 0 w (ic # rest) t = walk X g 0 w rest (fork ?t2)" unfolding ic .
    moreover from Cons.IH [OF continued(3) rel3] Cons.prems(3)
    obtain t' where "walk X g 0 w rest (fork ?t2) = Inr t'" "walk_rel s' t'" by auto
    ultimately show ?thesis by simp
  qed
qed

lemma collect_without_exploration:
  assumes run: "collect_data_from_game X gamefile seed d = Inr (gf, ds)"
  shows "collect_data_from_game X gamefile seed' 0
           = Inr (gf, filter (\<lambda>r. snd (step r) = 0) ds)"
  using run
proof (cases rule: collect_data_from_game_cases)
  case (1 ob info e w s')
  let ?s0 = "\<lparr> env = e, env_' = e, obs = ob, infos = info, done' = False,
         facts_seen = {}, facts_seen_' = {}, dataset = [],
         rng = RandomState X seed \<rparr> :: ('a, 'b, 'c, 'd, 'e, 'f) vars"
  let ?t0 = "\<lparr> env = e, env_' = e, obs = ob, infos = info, done' = False,
         facts_seen = {}, facts_seen_' = {}, dataset = [],
         rng = RandomState X seed' \<rparr> :: ('a, 'b, 'c, 'd, 'e, 'f) vars"
  from 1(2) obtain rest where w: "w = ''restart'' # ''inventory'' # rest"
    by (rule normalize_walkthrough_cases)
  have en: "enumerate 0 w = (0, ''restart'') # enumerate 1 (tl w)"
    by (simp add: w)
  have pos: "\<forall>ic\<in>set (enumerate 1 (tl w)). 0 < fst ic"
    by (auto simp: in_set_enumerate_eq)
  let ?s2 = "recorded X gamefile 0 ''restart'' (facts_seen ?s0) (after_command X 0 ''restart'' ?s0)"
  let ?t2 = "recorded X gamefile 0 ''restart'' (facts_seen ?t0) (after_command X 0 ''restart'' ?t0)"
  have rel2: "walk_rel ?s2 ?t2"
    unfolding after_command_0 by (simp add: recorded_rel)
  have nd: "\<not> done' (after_command X 0 ''restart'' ?t0)" by (simp add: after_command_0)
  from 1(3) [unfolded en] have "\<exists>t'. walk X gamefile 0 w (enumerate 0 w) ?t0 = Inr t'
      \<and> walk_rel s' t'"
  proof (cases rule: walk_Cons_cases)
    case finished
    then show ?thesis by (simp add: after_command_0)
  next
    case (continued s3)
    have rel3: "walk_rel s3 (fork ?t2)"
      using explore_rel [OF continued(2) rel2] by (simp add: walk_rel_def fork_simps)
    from walk_Cons_continue [OF nd explore_depth_0]
    have "walk X gamefile 0 w (enumerate 0 w) ?t0
            = walk X gamefile 0 w (enumerate 1 (tl w)) (fork ?t2)"
      unfolding en .
    moreover from walk_without_exploration [OF continued(3) rel3 pos]
    obtain t' where "walk X gamefile 0 w (enumerate 1 (tl w)) (fork ?t2) = Inr t'"
      "walk_rel s' t'" by blast
    ultimately show ?thesis by simp
  qed
  then obtain t' where t': "walk X gamefile 0 w (enumerate 0 w) ?t0 = Inr t'"
    "walk_rel s' t'" by blast
  have "collect_data_from_game X gamefile seed' 0 = Inr (gamefile, dataset t')"
    using 1(1,2) t'(1) by (simp add: collect_data_from_game_def)
  then show ?thesis using t'(2) 1(4,5) by (simp add: walk_rel_def)
qed

subsection \<open>The seen set from one step to the next\<close>







section \<open>Batches of games\<close>

lemma game_results_Cons:
  "game_results X a n (g # gs) =
     collect_data_from_game X g (args_seed a + int n) (args_branching_depth a)
       # game_results X a (Suc n) gs"
  by (simp add: game_results_def)

lemma length_game_results: "length (game_results X a n gs) = length gs"
  by (simp add: game_results_def)


lemma collect_games_eq:
  "collect_games X a (enumerate n gs) out =
     (if length (takeWhile (\<lambda>r. \<not> isl r) (game_results X a n gs)) = length gs then None
      else Some (projl (game_results X a n gs
                          ! length (takeWhile (\<lambda>r. \<not> isl r) (game_results X a n gs)))),
      out @ map (snd \<circ> projr) (takeWhile (\<lambda>r. \<not> isl r) (game_results X a n gs)))"
proof (induction gs arbitrary: n out)
  case Nil
  then show ?case by (simp add: game_results_def)
next
  case (Cons g gs)
  show ?case
  proof (cases "collect_data_from_game X g (args_seed a + int n) (args_branching_depth a)")
    case (Inl e)
    then show ?thesis by (simp add: game_results_Cons)
  next
    case (Inr res)
    obtain gf data where res: "res = (gf, data)" by (cases res)
    show ?thesis
      using Inr res Cons.IH [of "Suc n" "out @ [data]"]
      by (simp add: game_results_Cons assemble_results_def)
  qed
qed

lemma collect_data_all_good:
  assumes "args_nb_processes a \<le> 1"
    and "\<forall>k<length gs. \<not> isl (game_results X a 0 gs ! k)"
  shows "collect_data X gs a
           = Some (None, \<lparr> written = map (snd \<circ> projr) (game_results X a 0 gs),
                            closed = True \<rparr>)"
proof -
  have "\<forall>r\<in>set (game_results X a 0 gs). \<not> isl r"
    using assms(2) by (metis in_set_conv_nth length_game_results)
  then have tw: "takeWhile (\<lambda>r. \<not> isl r) (game_results X a 0 gs) = game_results X a 0 gs"
    by (simp add: takeWhile_eq_all_conv)
  have "collect_games X a (enumerate 0 gs) []
          = (None, map (snd \<circ> projr) (game_results X a 0 gs))"
    unfolding collect_games_eq tw by (simp add: length_game_results)
  then show ?thesis
    using assms(1) by (simp add: collect_data_def)
qed

lemma collect_data_first_failure:
  assumes "args_nb_processes a \<le> 1"
    and "k < length gs" "game_results X a 0 gs ! k = Inl e"
    and "\<forall>j<k. \<not> isl (game_results X a 0 gs ! j)"
  shows "collect_data X gs a
           = Some (Some e, \<lparr> written = map (snd \<circ> projr) (take k (game_results X a 0 gs)),
                              closed = False \<rparr>)"
proof -
  let ?rs = "game_results X a 0 gs"
  have tw: "takeWhile (\<lambda>r. \<not> isl r) ?rs = take k ?rs"
  proof (rule takeWhile_eq_take_P_nth)
    show "\<And>i. i < k \<Longrightarrow> i < length ?rs \<Longrightarrow> \<not> isl (?rs ! i)" using assms(4) by simp
    show "k < length ?rs \<Longrightarrow> \<not> \<not> isl (?rs ! k)" using assms(3) by simp
  qed
  have len: "length (take k ?rs) = k" using assms(2) by (simp add: length_game_results)
  have "collect_games X a (enumerate 0 gs) []
          = (Some e, map (snd \<circ> projr) (take k ?rs))"
    unfolding collect_games_eq tw len using assms(2,3) by simp
  then show ?thesis
    using assms(1) by (simp add: collect_data_def)
qed



section \<open>The example game, run\<close>

lemma example_run:
  "collect_data_from_game example ''games/a.z8'' 0 0 = Inr (''games/a.z8'', example_records)"
  by code_simp

lemma example_finite:
  "\<forall>prev gm fs la c. finite prev \<longrightarrow> finite (process_facts example prev gm fs la c)"
  by (simp add: example_def)

lemma example_paired_run:
  "collect_data_from_game example_paired ''games/a.z8'' 0 0
     = Inr (''games/a.z8'', paired_records)"
  by code_simp

lemma example_paired_finite:
  "\<forall>prev gm fs la c. finite prev
     \<longrightarrow> finite (process_facts example_paired prev gm fs la c)"
  by (simp add: example_paired_def example_def)

lemma example_explored_run:
  "collect_data_from_game example ''games/a.z8'' 0 1
     = Inr (''games/a.z8'', example_records_explored)"
  by code_simp

lemma pt_explore_dataset:
  "pt_dataset (fold (pt_try X loc full g i e seen) jcs s)
     = pt_dataset s @ map (\<lambda>jc. snd (snd (pt_sibling X loc full g i e seen jc))) jcs"
  by (induction jcs arbitrary: s) (simp_all add: pt_try_def split: prod.splits)

section \<open>Claims\<close>

text \<open>
  C1. Round trip, up to the collapsing of inverse pairs: when \<open>process_facts\<close> returns
  finite sets (as every Python set is), every record that \<open>collect_data_from_game\<close> emits
  is built from two seen sets, and applying its \<open>target_commands\<close>, in their order, to its
  \<open>previous_graph_seen\<close> gives a sorted list that is its \<open>graph_seen\<close> without the added
  facts whose command the collapsing dropped and with the removed facts whose command it
  dropped. The list is exactly \<open>graph_seen\<close> when no command of the record was dropped, in
  particular when no fact has an inverse.
\<close>

theorem round_trip_up_to_collapsing:
  assumes "\<forall>prev gm fs la c. finite prev \<longrightarrow> finite (process_facts X prev gm fs la c)"
    and "collect_data_from_game X gamefile seed branching_depth = Inr (gf, ds)"
    and "r \<in> set ds"
  shows "(\<exists>prev cur.
            previous_graph_seen r = sort (serialize_facts X prev)
          \<and> graph_seen r = sort (serialize_facts X cur)
          \<and> target_commands r = synth_commands X prev cur
          \<and> sorted (apply_commands (target_commands r) (previous_graph_seen r))
          \<and> mset (apply_commands (target_commands r) (previous_graph_seen r))
              + mset (serialize_facts X (dropped X (added prev cur)))
            = mset (graph_seen r) + mset (serialize_facts X (dropped X (removed prev cur)))
          \<and> (dropped X (added prev cur) = {} \<and> dropped X (removed prev cur) = {}
               \<longrightarrow> apply_commands (target_commands r) (previous_graph_seen r)
                     = graph_seen r))
         \<and> ((\<forall>f. inverse X f = None)
               \<longrightarrow> apply_commands (target_commands r) (previous_graph_seen r) = graph_seen r)"
proof -
  let ?res = "\<lambda>r. apply_commands (target_commands r) (previous_graph_seen r)"
  let ?P = "\<lambda>r. \<exists>prev cur.
            previous_graph_seen r = sort (serialize_facts X prev)
          \<and> graph_seen r = sort (serialize_facts X cur)
          \<and> target_commands r = synth_commands X prev cur
          \<and> sorted (?res r)
          \<and> mset (?res r) + mset (serialize_facts X (dropped X (added prev cur)))
            = mset (graph_seen r) + mset (serialize_facts X (dropped X (removed prev cur)))
          \<and> (dropped X (added prev cur) = {} \<and> dropped X (removed prev cur) = {}
               \<longrightarrow> ?res r = graph_seen r)"
  have "\<forall>r\<in>set ds. ?P r"
  proof (rule collect_invariant [OF assms(2), where I = finite and P = ?P])
    show "finite {}" by simp
    show "\<forall>prev gm fs la c. finite prev \<longrightarrow> finite (process_facts X prev gm fs la c)"
      by (rule assms(1))
    show "\<forall>st ob c prev gm fs la. finite prev
            \<longrightarrow> ?P (mk_datum X gamefile st ob c prev (process_facts X prev gm fs la c))"
    proof (intro allI impI)
      fix st ob c gm fs la and prev :: "'a set"
      assume fp: "finite prev"
      define cur where "cur = process_facts X prev gm fs la c"
      have fc: "finite cur" using assms(1) fp by (simp add: cur_def)
      let ?r = "mk_datum X gamefile st ob c prev cur"
      have sel: "previous_graph_seen ?r = sort (serialize_facts X prev)"
        "graph_seen ?r = sort (serialize_facts X cur)"
        "target_commands ?r = synth_commands X prev cur"
        by (simp_all add: mk_datum_def)
      have "sorted (?res ?r)"
        unfolding sel by (rule apply_synth_commands(1) [OF fp fc])
      moreover have "mset (?res ?r) + mset (serialize_facts X (dropped X (added prev cur)))
            = mset (graph_seen ?r) + mset (serialize_facts X (dropped X (removed prev cur)))"
        unfolding sel by (rule apply_synth_commands(2) [OF fp fc])
      moreover have "?res ?r = graph_seen ?r"
        if "dropped X (added prev cur) = {} \<and> dropped X (removed prev cur) = {}"
        unfolding sel using that by (simp add: round_trip_sets [OF fp fc])
      ultimately have "?P ?r" using sel by blast
      then show "?P (mk_datum X gamefile st ob c prev (process_facts X prev gm fs la c))"
        by (simp only: cur_def)
    qed
  qed
  with assms(3) have P: "?P r" by simp
  moreover have "?res r = graph_seen r" if "\<forall>f. inverse X f = None"
  proof -
    from P obtain prev cur where
      "dropped X (added prev cur) = {} \<and> dropped X (removed prev cur) = {}
         \<longrightarrow> ?res r = graph_seen r"
      by blast
    then show ?thesis using dropped_no_inverse [OF that] by simp
  qed
  ultimately show ?thesis by blast
qed

theorem round_trip_up_to_collapsing_witness:
  "collect_data_from_game example ''games/a.z8'' 0 0 = Inr (''games/a.z8'', example_records)
   \<and> example_records ! 2 \<in> set example_records
   \<and> (\<forall>f. inverse example f = None)
   \<and> target_commands (example_records ! 2)
       = [''add at(player, hallway)'', ''delete at(player, kitchen)'']
   \<and> apply_commands (target_commands (example_records ! 2))
         (previous_graph_seen (example_records ! 2))
       = graph_seen (example_records ! 2)"
proof -
  have m: "example_records ! 2 \<in> set example_records"
    by (simp add: example_records_def)
  have i: "\<forall>f. inverse example f = None"
    by (simp add: example_def)
  have t: "target_commands (example_records ! 2)
       = [''add at(player, hallway)'', ''delete at(player, kitchen)'']"
    by (simp add: example_records_def)
  have "apply_commands (target_commands (example_records ! 2))
         (previous_graph_seen (example_records ! 2))
       = graph_seen (example_records ! 2)"
    using round_trip_up_to_collapsing [OF example_finite example_run m] i by blast
  with example_run m i t show ?thesis by blast
qed

text \<open>
  With a pair of inverse facts the commands do not reproduce the graph. After \<open>go north\<close>
  the two facts of the pair are added and only the command of the smaller encoding is
  emitted, so the result lacks \<open>south_of(kitchen, hallway)\<close>; after \<open>eat meal\<close> both are
  removed and only one delete command is emitted, so the result keeps it.
\<close>

theorem round_trip_fails_on_pair:
  "collect_data_from_game example_paired ''games/a.z8'' 0 0
     = Inr (''games/a.z8'', paired_records)
   \<and> paired_records ! 2 \<in> set paired_records
   \<and> paired_records ! 3 \<in> set paired_records
   \<and> apply_commands (target_commands (paired_records ! 2))
         (previous_graph_seen (paired_records ! 2))
       = [''at(player, hallway)'', ''north_of(hallway, kitchen)'']
   \<and> graph_seen (paired_records ! 2)
       = [''at(player, hallway)'', ''north_of(hallway, kitchen)'',
          ''south_of(kitchen, hallway)'']
   \<and> apply_commands (target_commands (paired_records ! 2))
         (previous_graph_seen (paired_records ! 2))
       \<noteq> graph_seen (paired_records ! 2)
   \<and> apply_commands (target_commands (paired_records ! 3))
         (previous_graph_seen (paired_records ! 3))
       = [''at(player, kitchen)'', ''in(apple, kitchen)'', ''south_of(kitchen, hallway)'']
   \<and> graph_seen (paired_records ! 3) = [''at(player, kitchen)'', ''in(apple, kitchen)'']
   \<and> apply_commands (target_commands (paired_records ! 3))
         (previous_graph_seen (paired_records ! 3))
       \<noteq> graph_seen (paired_records ! 3)"
proof -
  have a2: "apply_commands (target_commands (paired_records ! 2))
         (previous_graph_seen (paired_records ! 2))
       = [''at(player, hallway)'', ''north_of(hallway, kitchen)'']"
    by code_simp
  have g2: "graph_seen (paired_records ! 2)
       = [''at(player, hallway)'', ''north_of(hallway, kitchen)'',
          ''south_of(kitchen, hallway)'']"
    by (simp add: paired_records_def)
  have a3: "apply_commands (target_commands (paired_records ! 3))
         (previous_graph_seen (paired_records ! 3))
       = [''at(player, kitchen)'', ''in(apple, kitchen)'', ''south_of(kitchen, hallway)'']"
    by code_simp
  have g3: "graph_seen (paired_records ! 3)
       = [''at(player, kitchen)'', ''in(apple, kitchen)'']"
    by (simp add: paired_records_def)
  have m: "paired_records ! 2 \<in> set paired_records" "paired_records ! 3 \<in> set paired_records"
    by (simp_all add: paired_records_def)
  have n2: "apply_commands (target_commands (paired_records ! 2))
         (previous_graph_seen (paired_records ! 2))
       \<noteq> graph_seen (paired_records ! 2)"
    unfolding a2 g2 by simp
  have n3: "apply_commands (target_commands (paired_records ! 3))
         (previous_graph_seen (paired_records ! 3))
       \<noteq> graph_seen (paired_records ! 3)"
    unfolding a3 g3 by simp
  show ?thesis using example_paired_run m a2 g2 n2 a3 g3 n3 by blast
qed

text \<open>
  C2. The facts added between two seen sets are those of the current set that are not in
  the previous one, the facts removed are those of the previous set that are not in the
  current one. No fact is both added and removed. When the two sets are equal nothing is
  added, nothing is removed, and the list of commands is empty.
\<close>

theorem diff_definition:
  "added previous current = current - previous
   \<and> removed previous current = previous - current
   \<and> added previous current \<inter> removed previous current = {}
   \<and> added previous previous = {}
   \<and> removed previous previous = {}
   \<and> synth_commands X previous previous = []"
  by (auto simp: added_def removed_def synth_commands_def gen_graph_commands_def
        serialize_facts_def collapse_def)




text \<open>
  C4. Branch isolation. The exploration loop, started from the fork of a walkthrough
  state, leaves the walkthrough's seen set and environment as they were, and the first
  record of a branch is made from the walkthrough's seen set. As a consequence the records
  of the walkthrough steps do not depend on the exploration: they are the records that the
  same game gives with no exploration at all, whatever the seed. In
  \<open>collect_playthroughs.py\<close>, where the branches of a step are siblings of one command
  each, the record of a sibling is made from the walkthrough's environment and seen set
  and its own command only.
\<close>

theorem branch_isolation:
  "(explore X g d w i (fork s) = Inr s' \<longrightarrow> facts_seen s' = facts_seen s \<and> env s' = env s)
   \<and> (explore_body X g w i j (fork s) = Inr (Continue t) \<longrightarrow>
        facts_seen t = facts_seen s
        \<and> (\<exists>ob c. dataset t = dataset s
              @ [mk_datum X g (int i, j) ob c (facts_seen s) (facts_seen_' t)]))
   \<and> (collect_data_from_game X gamefile seed d = Inr (gf, ds) \<longrightarrow>
        collect_data_from_game X gamefile seed' 0
          = Inr (gf, filter (\<lambda>r. snd (step r) = 0) ds))
   \<and> pt_dataset (pt_explore X loc full g i e seen commands u)
       = pt_dataset u
         @ map (\<lambda>jc. snd (snd (pt_sibling X loc full g i e seen jc))) (enumerate 1 commands)"
proof -
  have 1: "facts_seen s' = facts_seen s \<and> env s' = env s"
    if "explore X g d w i (fork s) = Inr s'"
    using explore_frame [OF that] by (simp add: fork_simps)
  have 2: "facts_seen t = facts_seen s
        \<and> (\<exists>ob c. dataset t = dataset s
              @ [mk_datum X g (int i, j) ob c (facts_seen s) (facts_seen_' t)])"
    if "explore_body X g w i j (fork s) = Inr (Continue t)"
    using that
  proof (cases rule: explore_body_cases)
    case (stepped cs c r' ob info e')
    from stepped(5) have "facts_seen t = facts_seen s"
      "dataset t = dataset s @ [mk_datum X g (int i, j) ob c (facts_seen s) (facts_seen_' t)]"
      by (simp_all add: fork_def)
    then show ?thesis by blast
  qed simp_all
  have 3: "collect_data_from_game X gamefile seed' 0
          = Inr (gf, filter (\<lambda>r. snd (step r) = 0) ds)"
    if "collect_data_from_game X gamefile seed d = Inr (gf, ds)"
    using that by (rule collect_without_exploration)
  have 4: "pt_dataset (pt_explore X loc full g i e seen commands u)
       = pt_dataset u
         @ map (\<lambda>jc. snd (snd (pt_sibling X loc full g i e seen jc))) (enumerate 1 commands)"
    unfolding pt_explore_def by (rule pt_explore_dataset)
  from 1 2 3 4 show ?thesis by blast
qed

theorem branch_isolation_witness:
  "collect_data_from_game example ''games/a.z8'' 0 1
     = Inr (''games/a.z8'', example_records_explored)
   \<and> collect_data_from_game example ''games/a.z8'' 7 0
     = Inr (''games/a.z8'', filter (\<lambda>r. snd (step r) = 0) example_records_explored)
   \<and> filter (\<lambda>r. snd (step r) = 0) example_records_explored = example_records
   \<and> explore example ''games/a.z8'' 1 example_walkthrough 2 (fork example_state)
     = Inr (projr (explore example ''games/a.z8'' 1 example_walkthrough 2 (fork example_state)))
   \<and> facts_seen (projr (explore example ''games/a.z8'' 1 example_walkthrough 2
                             (fork example_state)))
     = facts_seen example_state
   \<and> facts_seen_' (projr (explore example ''games/a.z8'' 1 example_walkthrough 2
                               (fork example_state)))
     = {1, 3}"
proof -
  have f: "filter (\<lambda>r. snd (step r) = 0) example_records_explored = example_records"
    by (simp add: example_records_explored_def example_records_def)
  from branch_isolation [of example "''games/a.z8''" 1, where seed = 0 and seed' = 7]
  have c: "collect_data_from_game example ''games/a.z8'' 7 0
     = Inr (''games/a.z8'', filter (\<lambda>r. snd (step r) = 0) example_records_explored)"
    using example_explored_run by blast
  have e: "explore example ''games/a.z8'' 1 example_walkthrough 2 (fork example_state)
     = Inr (projr (explore example ''games/a.z8'' 1 example_walkthrough 2 (fork example_state)))"
    by code_simp
  from branch_isolation [where X = example and g = "''games/a.z8''" and d = 1
      and w = example_walkthrough and i = 2 and s = example_state, THEN conjunct1,
      rule_format, OF e]
  have k: "facts_seen (projr (explore example ''games/a.z8'' 1 example_walkthrough 2
                             (fork example_state)))
     = facts_seen example_state"
    by blast
  have b: "facts_seen_' (projr (explore example ''games/a.z8'' 1 example_walkthrough 2
                               (fork example_state)))
     = {1, 3}"
    by code_simp
  from example_explored_run c f e k b show ?thesis by blast
qed

text \<open>
  C5. Command ordering: in every emitted record, \<open>target_commands\<close> is the sorted list of
  strings \<open>add f\<close> followed by the sorted list of strings \<open>delete f\<close>, every \<open>f\<close> the
  serialization of a fact; so the list is sorted by the pair (operation, fact string).
\<close>

theorem command_ordering:
  assumes "collect_data_from_game X gamefile seed branching_depth = Inr (gf, ds)"
    and "r \<in> set ds"
  shows "sorted (map command_key (target_commands r))
         \<and> (\<exists>A D. sorted A \<and> sorted D \<and> set A \<union> set D \<subseteq> range (serialize X)
                \<and> target_commands r = map ((@) ''add '') A @ map ((@) ''delete '') D)"
proof -
  let ?F = "\<lambda>r. \<exists>A D. sorted A \<and> sorted D \<and> set A \<union> set D \<subseteq> range (serialize X)
                \<and> target_commands r = map ((@) ''add '') A @ map ((@) ''delete '') D"
  have "\<forall>r\<in>set ds. ?F r"
  proof (rule collect_invariant [OF assms(1), where I = "\<lambda>_. True" and P = ?F])
    show "\<forall>st ob c prev gm fs la. True
            \<longrightarrow> ?F (mk_datum X gamefile st ob c prev (process_facts X prev gm fs la c))"
    proof (intro allI impI)
      fix st ob c gm fs la and prev :: "'e set"
      define seen where "seen = process_facts X prev gm fs la c"
      let ?A = "sort (serialize_facts X (collapse X (added prev seen)))"
      let ?D = "sort (serialize_facts X (collapse X (removed prev seen)))"
      have "sorted ?A" "sorted ?D" by simp_all
      moreover have "set ?A \<union> set ?D \<subseteq> range (serialize X)"
        using set_serialize_facts [of X] by auto
      moreover have "target_commands (mk_datum X gamefile st ob c prev seen)
          = map ((@) ''add '') ?A @ map ((@) ''delete '') ?D"
        by (simp add: mk_datum_def synth_commands_sorted_form del: append.simps)
      ultimately show
        "?F (mk_datum X gamefile st ob c prev (process_facts X prev gm fs la c))"
        unfolding seen_def by blast
    qed
  qed simp_all
  with assms(2) obtain A D where AD: "sorted A" "sorted D"
    "set A \<union> set D \<subseteq> range (serialize X)"
    "target_commands r = map ((@) ''add '') A @ map ((@) ''delete '') D" by blast
  have "sorted (map command_key (target_commands r))"
    unfolding AD(4) using AD(1,2) by (rule sorted_command_keys)
  with AD show ?thesis by blast
qed

theorem command_ordering_witness:
  "collect_data_from_game example ''games/a.z8'' 0 0 = Inr (''games/a.z8'', example_records)
   \<and> example_records ! 3 \<in> set example_records
   \<and> target_commands (example_records ! 3)
       = [''add at(player, kitchen)'', ''add in(apple, kitchen)'',
          ''delete at(player, hallway)'']
   \<and> sorted (map command_key (target_commands (example_records ! 3)))"
proof -
  have m: "example_records ! 3 \<in> set example_records"
    by (simp add: example_records_def)
  have t: "target_commands (example_records ! 3)
       = [''add at(player, kitchen)'', ''add in(apple, kitchen)'',
          ''delete at(player, hallway)'']"
    by (simp add: example_records_def)
  show ?thesis
    using command_ordering [OF example_run m] example_run m t by blast
qed



text \<open>
  C7. Done is terminal. On the walkthrough: when the environment reports the end of the
  episode for the walkthrough command at index \<open>k\<close>, the emitted records are those of the
  steps before \<open>k\<close> and the record \<open>(k, 0)\<close>; in the loop, the iteration that gets the report
  appends its record and returns, so no branch is explored from there and none of the
  remaining commands is processed. On an exploratory branch: when no command is eligible
  the loop returns with the variables unchanged, and when the environment reports the end
  of the episode for the chosen command the loop returns without a record for it; in
  both cases none of the remaining iterations runs.
\<close>

theorem done_is_terminal:
  "(collect_data_from_game X gamefile seed d = Inr (gf, ds)
      \<and> reset X (start X gamefile) = ((ob0, info0), e0)
      \<and> normalize_walkthrough (extra_walkthrough info0) = Inr w0
      \<and> 0 < k \<and> k < length w0
      \<and> reports_done X (env_after X e0 (take (k - 1) (tl w0))) (w0 ! k) \<longrightarrow>
      (\<forall>r\<in>set ds. fst (step r) < int k \<or> step r = (int k, 0)))
   \<and> (done' (after_command X i cmd s) \<longrightarrow>
      (\<exists>s'. walk X g d w ((i, cmd) # rest) s = Inr s'
         \<and> (\<exists>r. dataset s' = dataset s @ [r] \<and> step r = (int i, 0))))
   \<and> (eligible_commands w i (admissible_commands (infos s)) = Inr [] \<longrightarrow>
        for_loop (explore_body X g w i) (j # js) s = Inr s)
   \<and> (eligible_commands w i (admissible_commands (infos s)) = Inr cs \<and> cs \<noteq> []
        \<and> choice X (rng s) cs = (c, r') \<and> env_step X (env_' s) c = ((ob, True, info), e') \<longrightarrow>
        (\<exists>s'. for_loop (explore_body X g w i) (j # js) s = Inr s'
           \<and> dataset s' = dataset s))"
proof -
  have 1: "\<forall>r\<in>set ds. fst (step r) < int k \<or> step r = (int k, 0)"
    if "collect_data_from_game X gamefile seed d = Inr (gf, ds)"
      "reset X (start X gamefile) = ((ob0, info0), e0)"
      "normalize_walkthrough (extra_walkthrough info0) = Inr w0"
      "0 < k" "k < length w0"
      "reports_done X (env_after X e0 (take (k - 1) (tl w0))) (w0 ! k)"
    using that by (rule walkthrough_stops_after_done)
  have 2: "\<exists>s'. walk X g d w ((i, cmd) # rest) s = Inr s'
         \<and> (\<exists>r. dataset s' = dataset s @ [r] \<and> step r = (int i, 0))"
    if dn: "done' (after_command X i cmd s)"
  proof -
    let ?s' = "recorded X g i cmd (facts_seen s) (after_command X i cmd s)"
    have "\<exists>r. dataset ?s' = dataset s @ [r] \<and> step r = (int i, 0)"
      by (simp add: recorded_simps after_command_keeps mk_datum_def)
    with walk_Cons_done [OF dn] show ?thesis by blast
  qed
  have 3: "for_loop (explore_body X g w i) (j # js) s = Inr s"
    if "eligible_commands w i (admissible_commands (infos s)) = Inr []"
    using that by (rule explore_exhausted)
  have 4: "\<exists>s'. for_loop (explore_body X g w i) (j # js) s = Inr s' \<and> dataset s' = dataset s"
    if "eligible_commands w i (admissible_commands (infos s)) = Inr cs" "cs \<noteq> []"
      "choice X (rng s) cs = (c, r')" "env_step X (env_' s) c = ((ob, True, info), e')"
    using explore_finished [OF that] by simp
  from 1 2 3 4 show ?thesis by blast
qed

theorem done_is_terminal_witness:
  "collect_data_from_game example ''games/a.z8'' 0 1
     = Inr (''games/a.z8'', example_records_explored)
   \<and> normalize_walkthrough [''go north'', ''eat meal'', ''go south''] = Inr example_walkthrough
   \<and> reports_done example
        (env_after example [''games/a.z8''] (take 2 (tl example_walkthrough)))
        (example_walkthrough ! 3)
   \<and> list_all (\<lambda>r. fst (step r) < 3 \<or> step r = (3, 0)) example_records_explored
   \<and> done' (after_command example 3 ''eat meal'' example_state)
   \<and> map step (dataset (projr (walk example ''games/a.z8'' 1 example_walkthrough
                                 [(3, ''eat meal''), (4, ''go south'')] example_state)))
       = [(3, 0)]
   \<and> eligible_commands example_walkthrough 4 (admissible_commands (infos example_state))
       = Inr []
   \<and> for_loop (explore_body example ''games/a.z8'' example_walkthrough 4) [1, 2] example_state
       = Inr example_state
   \<and> eligible_commands example_walkthrough 1 (admissible_commands (infos example_state))
       = Inr [''take apple'', ''eat meal'']
   \<and> dataset (projr (for_loop (explore_body example ''games/a.z8'' example_walkthrough 1)
                        [1, 2] example_state))
       = dataset example_state"
proof -
  have r: "reset example (start example ''games/a.z8'')
       = ((''Welcome'', example_infos [''go north'', ''eat meal'', ''go south''] [1]),
          [''games/a.z8''])"
    by (simp add: example_def)
  have n: "normalize_walkthrough [''go north'', ''eat meal'', ''go south'']
             = Inr example_walkthrough"
    by (simp add: normalize_walkthrough_def example_walkthrough_def)
  have n': "normalize_walkthrough (extra_walkthrough
               (example_infos [''go north'', ''eat meal'', ''go south''] [1]))
             = Inr example_walkthrough"
    using n by (simp add: example_infos_def)
  have k: "(0::nat) < 3" "3 < length example_walkthrough"
    by (simp_all add: example_walkthrough_def)
  have rd: "reports_done example
        (env_after example [''games/a.z8''] (take 2 (tl example_walkthrough)))
        (example_walkthrough ! 3)"
    by code_simp
  have rd': "reports_done example
        (env_after example [''games/a.z8''] (take (3 - 1) (tl example_walkthrough)))
        (example_walkthrough ! 3)"
    using rd by simp
  from done_is_terminal [where X = example and gamefile = "''games/a.z8''" and seed = 0
      and d = 1 and k = 3 and w0 = example_walkthrough, THEN conjunct1, rule_format]
    example_explored_run r n' k rd'
  have "\<forall>r\<in>set example_records_explored. fst (step r) < int 3 \<or> step r = (int 3, 0)"
    by blast
  then have g: "list_all (\<lambda>r. fst (step r) < 3 \<or> step r = (3, 0)) example_records_explored"
    by (simp add: list_all_iff)
  have dn: "done' (after_command example 3 ''eat meal'' example_state)" by code_simp
  have w: "map step (dataset (projr (walk example ''games/a.z8'' 1 example_walkthrough
                                 [(3, ''eat meal''), (4, ''go south'')] example_state)))
       = [(3, 0)]"
    by code_simp
  have e4: "eligible_commands example_walkthrough 4 (admissible_commands (infos example_state))
       = Inr []"
    by code_simp
  have l4: "for_loop (explore_body example ''games/a.z8'' example_walkthrough 4) [1, 2]
              example_state = Inr example_state"
    using done_is_terminal [where X = example and w = example_walkthrough and i = 4
        and s = example_state, THEN conjunct2, THEN conjunct2, THEN conjunct1,
        rule_format, OF e4] .
  have e1: "eligible_commands example_walkthrough 1 (admissible_commands (infos example_state))
       = Inr [''take apple'', ''eat meal'']"
    by code_simp
  have l1: "dataset (projr (for_loop (explore_body example ''games/a.z8'' example_walkthrough 1)
                        [1, 2] example_state))
       = dataset example_state"
    by code_simp
  from example_explored_run n rd g dn w e4 l4 e1 l1 show ?thesis by blast
qed

text \<open>
  C8, as the code has it. \<open>collect_data\<close> has no handler for a failure of a game. In the
  sequential branch a batch in which every game succeeds is written completely and the
  file is closed; when a game fails, the failure ends \<open>collect_data\<close>: the file holds the
  data of the games before the first failing one, nothing of the later games, and is
  left without its closing bracket.
\<close>

theorem failure_ends_batch:
  assumes "args_nb_processes a \<le> 1"
  shows "((\<forall>k<length gamefiles. \<not> isl (game_results X a 0 gamefiles ! k)) \<longrightarrow>
           collect_data X gamefiles a
             = Some (None, \<lparr> written = map (snd \<circ> projr) (game_results X a 0 gamefiles),
                              closed = True \<rparr>))
         \<and> (k < length gamefiles \<and> game_results X a 0 gamefiles ! k = Inl e
              \<and> (\<forall>j<k. \<not> isl (game_results X a 0 gamefiles ! j)) \<longrightarrow>
             collect_data X gamefiles a
               = Some (Some e,
                       \<lparr> written = map (snd \<circ> projr) (take k (game_results X a 0 gamefiles)),
                         closed = False \<rparr>))"
  using collect_data_all_good [OF assms] collect_data_first_failure [OF assms] by blast

theorem failure_ends_batch_witness:
  "args_nb_processes example_args \<le> 1
   \<and> game_results example example_args 0 [''games/a.z8'', ''games/empty.z8'', ''games/b.z8''] ! 1
       = Inl IndexError
   \<and> \<not> isl (game_results example example_args 0
               [''games/a.z8'', ''games/empty.z8'', ''games/b.z8''] ! 0)
   \<and> \<not> isl (game_results example example_args 0
               [''games/a.z8'', ''games/empty.z8'', ''games/b.z8''] ! 2)
   \<and> collect_data example [''games/a.z8'', ''games/empty.z8'', ''games/b.z8''] example_args
       = Some (Some IndexError,
               \<lparr> written = map (snd \<circ> projr)
                   (take 1 (game_results example example_args 0
                              [''games/a.z8'', ''games/empty.z8'', ''games/b.z8''])),
                 closed = False \<rparr>)
   \<and> length (written (snd (the (collect_data example
         [''games/a.z8'', ''games/empty.z8'', ''games/b.z8''] example_args)))) = 1"
proof -
  let ?gs = "[''games/a.z8'', ''games/empty.z8'', ''games/b.z8'']"
  have a: "args_nb_processes example_args \<le> 1" by (simp add: example_args_def)
  have r1: "game_results example example_args 0 ?gs ! 1 = Inl IndexError" by code_simp
  have r0: "\<not> isl (game_results example example_args 0 ?gs ! 0)" by code_simp
  have r2: "\<not> isl (game_results example example_args 0 ?gs ! 2)" by code_simp
  have b: "\<forall>j<1. \<not> isl (game_results example example_args 0 ?gs ! j)"
    using r0 by simp
  have c: "collect_data example ?gs example_args
       = Some (Some IndexError,
               \<lparr> written = map (snd \<circ> projr) (take 1 (game_results example example_args 0 ?gs)),
                 closed = False \<rparr>)"
    using failure_ends_batch [OF a, where k = 1 and gamefiles = ?gs and X = example
        and e = IndexError] r1 b by simp
  have d: "length (written (snd (the (collect_data example ?gs example_args)))) = 1"
    unfolding c by (simp add: length_game_results)
  from a r1 r0 r2 c d show ?thesis by blast
qed

theorem failure_not_isolated:
  "collect_data example [''games/empty.z8'', ''games/a.z8'']
      \<lparr> args_nb_processes = 1, args_seed = - 1, args_branching_depth = 0 \<rparr>
     = Some (Some IndexError, \<lparr> written = [], closed = False \<rparr>)
   \<and> collect_data_from_game example ''games/empty.z8'' (- 1) 0 = Inl IndexError
   \<and> collect_data_from_game example ''games/a.z8'' 0 0 = Inr (''games/a.z8'', example_records)"
  by code_simp



text \<open>
  C10. The command sequence that is processed is the walkthrough of the environment, with
  \<open>inventory\<close> put in front unless it is its first command already, and \<open>restart\<close> put in
  front of that: it starts with \<open>restart\<close>, \<open>inventory\<close>. The emitted records contain a
  record for step \<open>(0, 0)\<close> and one for step \<open>(1, 0)\<close>, and every record for these steps
  has \<open>previous_action\<close> \<open>restart\<close> and \<open>inventory\<close> respectively.
\<close>

theorem walkthrough_normalization:
  assumes "collect_data_from_game X gamefile seed branching_depth = Inr (gf, ds)"
    and "reset X (start X gamefile) = ((ob, info), e)"
  shows "normalize_walkthrough (extra_walkthrough info)
           = Inr (''restart'' #
                    (if hd (extra_walkthrough info) = ''inventory'' then extra_walkthrough info
                     else ''inventory'' # extra_walkthrough info))
         \<and> (\<exists>rest. normalize_walkthrough (extra_walkthrough info)
                    = Inr (''restart'' # ''inventory'' # rest))
         \<and> (\<exists>r\<in>set ds. step r = (0, 0))
         \<and> (\<exists>r\<in>set ds. step r = (1, 0))
         \<and> (\<forall>r\<in>set ds. (step r = (0, 0) \<longrightarrow> previous_action r = ''restart'')
                        \<and> (step r = (1, 0) \<longrightarrow> previous_action r = ''inventory''))"
  using assms(1)
proof (cases rule: collect_data_from_game_cases)
  case (1 ob' info' e' w s')
  from 1(1) assms(2) have eq: "info' = info" by simp
  from 1(2) obtain rest where w: "w = ''restart'' # ''inventory'' # rest"
    by (rule normalize_walkthrough_cases)
  have nw: "normalize_walkthrough (extra_walkthrough info) = Inr w" using 1(2) eq by simp
  have a: "\<exists>rest. normalize_walkthrough (extra_walkthrough info)
                    = Inr (''restart'' # ''inventory'' # rest)"
    using nw w by simp
  have a': "normalize_walkthrough (extra_walkthrough info)
           = Inr (''restart'' #
                    (if hd (extra_walkthrough info) = ''inventory'' then extra_walkthrough info
                     else ''inventory'' # extra_walkthrough info))"
    using nw by (auto simp: normalize_walkthrough_def split: list.splits)
  from first_record [OF assms] obtain ext r0 where "ds = r0 # ext" "step r0 = (0, 0)"
    by (auto simp: mk_datum_def)
  then have b: "\<exists>r\<in>set ds. step r = (0, 0)" by auto
  from second_record [OF assms(1)] have c: "\<exists>r\<in>set ds. step r = (1, 0)" by blast
  have d: "\<forall>r\<in>set ds. (step r = (0, 0) \<longrightarrow> previous_action r = ''restart'')
                        \<and> (step r = (1, 0) \<longrightarrow> previous_action r = ''inventory'')"
  proof
    fix r assume r: "r \<in> set ds"
    from walkthrough_records [OF assms nw] r
    have i: "\<And>i. step r = (int i, 0) \<Longrightarrow> previous_action r = lower (w ! i)" by blast
    have "step r = (0, 0) \<longrightarrow> previous_action r = ''restart''"
      using i [of 0] by (simp add: w lower_restart_inventory)
    moreover have "step r = (1, 0) \<longrightarrow> previous_action r = ''inventory''"
      using i [of 1] by (simp add: w lower_restart_inventory)
    ultimately show "(step r = (0, 0) \<longrightarrow> previous_action r = ''restart'')
                        \<and> (step r = (1, 0) \<longrightarrow> previous_action r = ''inventory'')" by simp
  qed
  from a' a b c d show ?thesis by blast
qed

theorem walkthrough_normalization_witness:
  "collect_data_from_game example ''games/a.z8'' 0 0 = Inr (''games/a.z8'', example_records)
   \<and> reset example (start example ''games/a.z8'')
       = ((''Welcome'', example_infos [''go north'', ''eat meal'', ''go south''] [1]), [''games/a.z8''])
   \<and> normalize_walkthrough [''go north'', ''eat meal'', ''go south'']
       = Inr [''restart'', ''inventory'', ''go north'', ''eat meal'', ''go south'']
   \<and> step (example_records ! 1) = (1, 0)
   \<and> example_records ! 1 \<in> set example_records
   \<and> previous_action (example_records ! 1) = ''inventory''"
proof -
  have r: "reset example (start example ''games/a.z8'')
       = ((''Welcome'', example_infos [''go north'', ''eat meal'', ''go south''] [1]), [''games/a.z8''])"
    by (simp add: example_def)
  have n: "normalize_walkthrough [''go north'', ''eat meal'', ''go south'']
       = Inr [''restart'', ''inventory'', ''go north'', ''eat meal'', ''go south'']"
    by (simp add: normalize_walkthrough_def)
  have m: "example_records ! 1 \<in> set example_records" "step (example_records ! 1) = (1, 0)"
    by (simp_all add: example_records_def)
  show ?thesis
    using walkthrough_normalization [OF example_run r] example_run r n m by blast
qed

end
